theory Spec2Isabelle
  imports Main "HOL-Library.Word"
begin

section \<open>JSONK: a shallow embedding of the parser, serializer and merge-patch engine\<close>

text \<open>
  The development follows \<^verbatim>\<open>src/jsonk.c\<close> and \<^verbatim>\<open>include/jsonk.h\<close> function by
  function. Modelling decisions:
  \<^item> bytes are \<^typ>\<open>char\<close> (8 bits, read unsigned), byte buffers are \<^typ>\<open>string\<close>;
  \<^item> \<^verbatim>\<open>s64\<close> and \<^verbatim>\<open>u32\<close> are 64- and 32-bit words, so arithmetic wraps around as it
    does in a kernel build; \<^verbatim>\<open>size_t\<close> counters are natural numbers;
  \<^item> a \<^verbatim>\<open>struct jsonk_value\<close> is a value of a datatype; the intrusive member and element
    lists are HOL lists in list order, and the cached \<^verbatim>\<open>size\<close> field, which the code
    increments on every append and decrements on every removal, is the list's length;
  \<^item> reference counts and the release of memory are not represented: a value that the
    code releases is simply no longer part of the tree;
  \<^item> the host allocators (\<^verbatim>\<open>kmalloc\<close>, \<^verbatim>\<open>vmalloc\<close>, the slab caches) always succeed;
    the per-parse memory budget that the code itself enforces is modelled;
  \<^item> a \<^verbatim>\<open>NULL\<close> result is \<^term>\<open>None\<close>, a negative return code is \<open>Inl\<close> of the code.
\<close>

subsection \<open>Constants of jsonk.h\<close>

definition JSONK_MAX_DEPTH :: nat where "JSONK_MAX_DEPTH = 32"
definition JSONK_MAX_STRING_LENGTH :: nat where "JSONK_MAX_STRING_LENGTH = 1024 * 1024"
definition JSONK_MAX_ARRAY_SIZE :: nat where "JSONK_MAX_ARRAY_SIZE = 10000"
definition JSONK_MAX_OBJECT_MEMBERS :: nat where "JSONK_MAX_OBJECT_MEMBERS = 1000"
definition JSONK_MAX_TOTAL_MEMORY :: nat where "JSONK_MAX_TOTAL_MEMORY = 64 * 1024 * 1024"
definition JSONK_MAX_KEY_LENGTH :: nat where "JSONK_MAX_KEY_LENGTH = 256"

text \<open>
  The three \<^verbatim>\<open>sizeof\<close> values that enter the memory budget, for the LP64 layout of the
  structures declared in jsonk.h.
\<close>

definition sizeof_jsonk_value :: nat where "sizeof_jsonk_value = 32"
definition sizeof_jsonk_member :: nat where "sizeof_jsonk_member = 40"
definition sizeof_jsonk_array_element :: nat where "sizeof_jsonk_array_element = 24"

definition S64_MAX :: int where "S64_MAX = 9223372036854775807"
definition UINT_MAX :: nat where "UINT_MAX = 4294967295"

subsection \<open>Data model\<close>

type_synonym s64 = "64 word"
type_synonym u32 = "32 word"

datatype jsonk_errno = EINVAL | ENODATA | ENOSPC | ENOMEM | EOVERFLOW | ENOENT

text \<open>
  \<^verbatim>\<open>struct jsonk_value\<close>: the number carries \<^verbatim>\<open>integer\<close>, \<^verbatim>\<open>fraction\<close>,
  \<^verbatim>\<open>is_negative\<close> and \<^verbatim>\<open>is_integer\<close>, in this order.
\<close>

datatype jsonk_value =
    JSONK_VALUE_NULL
  | JSONK_VALUE_BOOLEAN bool
  | JSONK_VALUE_NUMBER s64 u32 bool bool
  | JSONK_VALUE_STRING string
  | JSONK_VALUE_ARRAY "jsonk_value list"
  | JSONK_VALUE_OBJECT "(string \<times> jsonk_value) list"

type_synonym jsonk_object = "(string \<times> jsonk_value) list"
type_synonym jsonk_array = "jsonk_value list"

datatype jsonk_token_type =
    JSONK_TOKEN_NONE | JSONK_TOKEN_OBJECT_START | JSONK_TOKEN_OBJECT_END
  | JSONK_TOKEN_ARRAY_START | JSONK_TOKEN_ARRAY_END | JSONK_TOKEN_COLON | JSONK_TOKEN_COMMA
  | JSONK_TOKEN_STRING | JSONK_TOKEN_NUMBER | JSONK_TOKEN_TRUE | JSONK_TOKEN_FALSE
  | JSONK_TOKEN_NULL | JSONK_TOKEN_ERROR

text \<open>A token: its type, the index in the input where it starts, and its length.\<close>

record jsonk_token =
  tok_type :: jsonk_token_type
  tok_start :: nat
  tok_len :: nat

text \<open>
  \<^verbatim>\<open>struct jsonk_parser\<close>. \<^verbatim>\<open>buffer_len\<close> is the length of \<open>buffer\<close>. The \<^verbatim>\<open>depth\<close>
  field is an explicit argument of the parsing functions below. The fields
  \<^verbatim>\<open>path\<close>, \<^verbatim>\<open>path_len\<close>, \<^verbatim>\<open>array_count\<close> and \<^verbatim>\<open>object_count\<close> are never read.
\<close>

record jsonk_parser =
  buffer :: string
  pos :: nat
  total_memory_used :: nat
  string_count :: nat

datatype jsonk_patch_result =
    JSONK_PATCH_SUCCESS | JSONK_PATCH_ERROR_PARSE | JSONK_PATCH_ERROR_PATH
  | JSONK_PATCH_ERROR_TYPE | JSONK_PATCH_ERROR_MEMORY | JSONK_PATCH_ERROR_OVERFLOW
  | JSONK_PATCH_NO_CHANGE

subsection \<open>Characters\<close>

definition is_digit :: "char \<Rightarrow> bool" where
  "is_digit c = (48 \<le> (of_char c :: nat) \<and> (of_char c :: nat) \<le> 57)"

definition digit_val :: "char \<Rightarrow> nat" where
  "digit_val c = of_char c - 48"

definition is_hex_digit :: "char \<Rightarrow> bool" where
  "is_hex_digit c = (is_digit c
     \<or> (97 \<le> (of_char c :: nat) \<and> (of_char c :: nat) \<le> 102)
     \<or> (65 \<le> (of_char c :: nat) \<and> (of_char c :: nat) \<le> 70))"

definition BACKSLASH :: char where "BACKSLASH = CHR 0x5C"
definition DQUOTE :: char where "DQUOTE = CHR 0x22"
definition NUL :: char where "NUL = CHR 0x00"

subsection \<open>Memory accounting\<close>

text \<open>
  \<^verbatim>\<open>jsonk_tracked_alloc\<close>: with a parser, the request fails when it would exceed the
  budget and is debited otherwise; without one (\<^verbatim>\<open>NULL\<close>) it always succeeds.
\<close>

definition jsonk_tracked_alloc :: "jsonk_parser option \<Rightarrow> nat \<Rightarrow> jsonk_parser option option" where
  "jsonk_tracked_alloc parser sz =
     (case parser of
        None \<Rightarrow> Some None
      | Some p \<Rightarrow>
          if total_memory_used p + sz > JSONK_MAX_TOTAL_MEMORY then None
          else Some (Some (p\<lparr>total_memory_used := total_memory_used p + sz\<rparr>)))"

text \<open>\<^verbatim>\<open>jsonk_value_create_tracked\<close>, as far as the budget goes.\<close>

definition jsonk_value_create_tracked :: "jsonk_parser option \<Rightarrow> jsonk_parser option option" where
  "jsonk_value_create_tracked parser =
     (case parser of
        None \<Rightarrow> Some None
      | Some p \<Rightarrow>
          if total_memory_used p + sizeof_jsonk_value > JSONK_MAX_TOTAL_MEMORY then None
          else Some (Some (p\<lparr>total_memory_used := total_memory_used p + sizeof_jsonk_value\<rparr>)))"

subsection \<open>String values\<close>

text \<open>
  The unescaping loop of \<^verbatim>\<open>jsonk_value_create_string_tracked\<close>. The argument is the
  part of the input from index \<^verbatim>\<open>i\<close> on, the result the bytes appended to
  \<^verbatim>\<open>unescaped\<close>. A backslash that is the last byte is copied as it is
  (\<^verbatim>\<open>i + 1 < len\<close> fails); \<^verbatim>\<open>\u\<close> needs four more bytes (\<^verbatim>\<open>i + 4 < len\<close> at the
  \<^verbatim>\<open>u\<close>), which are copied unchanged after \<^verbatim>\<open>\u\<close>.
\<close>

fun unescape :: "string \<Rightarrow> string option" where
  "unescape [] = Some []"
| "unescape [c] = Some [c]"
| "unescape (c # e # cs) =
     (if c = BACKSLASH then
        (if e = DQUOTE then map_option ((#) DQUOTE) (unescape cs)
         else if e = BACKSLASH then map_option ((#) BACKSLASH) (unescape cs)
         else if e = CHR ''/'' then map_option ((#) (CHR ''/'')) (unescape cs)
         else if e = CHR ''b'' then map_option ((#) (CHR 0x08)) (unescape cs)
         else if e = CHR ''f'' then map_option ((#) (CHR 0x0C)) (unescape cs)
         else if e = CHR ''n'' then map_option ((#) (CHR 0x0A)) (unescape cs)
         else if e = CHR ''r'' then map_option ((#) (CHR 0x0D)) (unescape cs)
         else if e = CHR ''t'' then map_option ((#) (CHR 0x09)) (unescape cs)
         else if e = CHR ''u'' then
           (if 4 \<le> length cs
            then map_option (\<lambda>r. BACKSLASH # CHR ''u'' # take 4 cs @ r) (unescape (drop 4 cs))
            else None)
         else None)
      else map_option ((#) c) (unescape (e # cs)))"

text \<open>
  \<^verbatim>\<open>jsonk_value_create_string_tracked\<close>: the length and string-count limits, the
  budget for the value node and for the \<^verbatim>\<open>len + 1\<close> bytes, the unescaping, and the
  re-fit of the buffer, which is kept as it is when the second allocation fails.
\<close>

definition jsonk_value_create_string_tracked ::
    "string \<Rightarrow> jsonk_parser option \<Rightarrow> (jsonk_value \<times> jsonk_parser option) option" where
  "jsonk_value_create_string_tracked str parser =
     (if length str > JSONK_MAX_STRING_LENGTH then None
      else if (case parser of Some p \<Rightarrow> string_count p \<ge> JSONK_MAX_ARRAY_SIZE | None \<Rightarrow> False)
        then None
      else case jsonk_value_create_tracked parser of
        None \<Rightarrow> None
      | Some parser1 \<Rightarrow>
         (case jsonk_tracked_alloc parser1 (length str + 1) of
            None \<Rightarrow> None
          | Some parser2 \<Rightarrow>
             (case unescape str of
                None \<Rightarrow> None
              | Some unescaped \<Rightarrow>
                 (let parser3 =
                        (if length unescaped < length str then
                           (case jsonk_tracked_alloc parser2 (length unescaped + 1) of
                              Some parser' \<Rightarrow> parser'
                            | None \<Rightarrow> parser2)
                         else parser2)
                  in Some (JSONK_VALUE_STRING unescaped,
                           map_option (\<lambda>p. p\<lparr>string_count := string_count p + 1\<rparr>) parser3)))))"

definition jsonk_value_create_string :: "string \<Rightarrow> jsonk_value option" where
  "jsonk_value_create_string str = map_option fst (jsonk_value_create_string_tracked str None)"

subsection \<open>Number values\<close>

text \<open>
  The scan for a decimal point or an exponent: it stops at the first \<^verbatim>\<open>e\<close> or \<^verbatim>\<open>E\<close>.
  The result is the pair (\<^verbatim>\<open>has_decimal\<close>, \<^verbatim>\<open>has_exponent\<close>).
\<close>

fun scan_decimal_exponent :: "string \<Rightarrow> bool \<Rightarrow> bool \<times> bool" where
  "scan_decimal_exponent [] has_decimal = (has_decimal, False)"
| "scan_decimal_exponent (c # cs) has_decimal =
     (if c = CHR ''.'' then scan_decimal_exponent cs True
      else if c = CHR ''e'' \<or> c = CHR ''E'' then (has_decimal, True)
      else scan_decimal_exponent cs has_decimal)"

text \<open>
  The loop over the digits before the decimal point. It returns the rest of the literal,
  starting at index \<^verbatim>\<open>i\<close>: on saturation the loop is left by \<^verbatim>\<open>break\<close>, before
  \<^verbatim>\<open>i\<close> is advanced. The comparison with \<^verbatim>\<open>S64_MAX / 10\<close> is signed.
\<close>

fun parse_int_part :: "string \<Rightarrow> s64 \<Rightarrow> string \<times> s64" where
  "parse_int_part [] int_part = ([], int_part)"
| "parse_int_part (c # cs) int_part =
     (if is_digit c then
        (if sint int_part > S64_MAX div 10 then (c # cs, word_of_int S64_MAX)
         else parse_int_part cs (int_part * 10 + word_of_nat (digit_val c)))
      else (c # cs, int_part))"

text \<open>The loop over at most nine digits after the decimal point.\<close>

fun parse_frac_part :: "string \<Rightarrow> u32 \<Rightarrow> nat \<Rightarrow> u32" where
  "parse_frac_part [] frac_part frac_digits = frac_part"
| "parse_frac_part (c # cs) frac_part frac_digits =
     (if is_digit c \<and> frac_digits < 9 then
        (if unat frac_part > UINT_MAX div 10 then frac_part
         else parse_frac_part cs (frac_part * 10 + word_of_nat (digit_val c)) (frac_digits + 1))
      else frac_part)"

text \<open>
  The kernel's \<^verbatim>\<open>simple_strtoll(s, &endptr, 10)\<close>, which is not part of this repository:
  an optional \<^verbatim>\<open>-\<close>, then decimal digits accumulated in an unsigned 64-bit result
  without any overflow check, negated for \<^verbatim>\<open>-\<close>. The second component is the number
  of bytes consumed (\<^verbatim>\<open>endptr - s\<close>).
\<close>

fun simple_strtoull :: "string \<Rightarrow> 64 word \<Rightarrow> 64 word \<times> nat" where
  "simple_strtoull [] res = (res, 0)"
| "simple_strtoull (c # cs) res =
     (if is_digit c then
        (case simple_strtoull cs (res * 10 + word_of_nat (digit_val c)) of
           (r, n) \<Rightarrow> (r, Suc n))
      else (res, 0))"

definition simple_strtoll :: "string \<Rightarrow> s64 \<times> nat" where
  "simple_strtoll s =
     (case s of
        [] \<Rightarrow> simple_strtoull s 0
      | c # cs \<Rightarrow>
          if c = CHR ''-'' then (case simple_strtoull cs 0 of (r, n) \<Rightarrow> (- r, Suc n))
          else simple_strtoull s 0)"

definition jsonk_value_create_number :: "string \<Rightarrow> jsonk_value option" where
  "jsonk_value_create_number str =
     (case scan_decimal_exponent str False of
        (has_decimal, has_exponent) \<Rightarrow>
          if has_decimal \<or> has_exponent then
            (let negative = (case str of [] \<Rightarrow> False | c # _ \<Rightarrow> c = CHR ''-'')
             in case parse_int_part (if negative then tl str else str) 0 of
                  (rest, int_part) \<Rightarrow>
                    Some (JSONK_VALUE_NUMBER
                            (if negative then - int_part else int_part)
                            (case rest of
                               [] \<Rightarrow> 0
                             | c # cs \<Rightarrow> if c = CHR ''.'' then parse_frac_part cs 0 0 else 0)
                            negative False))
          else
            (case simple_strtoll str of
               (v, consumed) \<Rightarrow>
                 if consumed \<noteq> length str then None
                 else Some (JSONK_VALUE_NUMBER v 0 (sint v < 0) True)))"

subsection \<open>Serializer\<close>

text \<open>
  Decimal rendering, as \<^verbatim>\<open>%lld\<close> and \<^verbatim>\<open>%u\<close> of the kernel's \<^verbatim>\<open>snprintf\<close>
  produce it (not part of this repository).
\<close>

definition digit_char :: "nat \<Rightarrow> char" where
  "digit_char d = ''0123456789'' ! (d mod 10)"

fun dec_digits :: "nat \<Rightarrow> string" where
  "dec_digits n =
     (if n < 10 then [digit_char n] else dec_digits (n div 10) @ [digit_char (n mod 10)])"

declare dec_digits.simps [simp del]

definition fmt_lld :: "s64 \<Rightarrow> string" where
  "fmt_lld x =
     (if sint x < 0 then CHR ''-'' # dec_digits (nat (- sint x)) else dec_digits (nat (sint x)))"

definition fmt_u :: "u32 \<Rightarrow> string" where
  "fmt_u x = dec_digits (unat x)"

text \<open>
  \<^verbatim>\<open>memcpy(buffer + off, src, n)\<close> and single stores \<^verbatim>\<open>buffer[off] = c\<close>: the bytes
  are stored one after the other; the buffer never changes its length.
\<close>

fun memcpy_to :: "string \<Rightarrow> nat \<Rightarrow> string \<Rightarrow> string" where
  "memcpy_to buf off [] = buf"
| "memcpy_to buf off (c # cs) = memcpy_to (buf[off := c]) (Suc off) cs"

text \<open>
  \<^verbatim>\<open>snprintf(buffer + off, size, ...)\<close> for the formatted text \<open>s\<close>: at most
  \<open>size - 1\<close> bytes of it are stored, followed by a terminating zero byte; nothing is
  stored when \<open>size\<close> is zero. The return value is the length of the whole text.
\<close>

definition snprintf :: "string \<Rightarrow> nat \<Rightarrow> nat \<Rightarrow> string \<Rightarrow> string \<times> nat" where
  "snprintf buf off sz s =
     ((if sz = 0 then buf else memcpy_to buf off (take (sz - 1) s @ [NUL])), length s)"

text \<open>
  The loop over the bytes of a string value. \<open>base\<close> is the index of
  \<^verbatim>\<open>buffer\<close> in the caller's buffer, \<open>wpos\<close> the running \<^verbatim>\<open>pos\<close>.
\<close>

fun serialize_string_bytes ::
    "string \<Rightarrow> string \<Rightarrow> nat \<Rightarrow> nat \<Rightarrow> nat \<Rightarrow> string \<times> (jsonk_errno + nat)" where
  "serialize_string_bytes [] buf base buffer_size wpos = (buf, Inr wpos)"
| "serialize_string_bytes (c # cs) buf base buffer_size wpos =
     (if c = DQUOTE \<or> c = BACKSLASH then
        (if wpos + 2 \<ge> buffer_size then (buf, Inl EOVERFLOW)
         else serialize_string_bytes cs (memcpy_to buf (base + wpos) [BACKSLASH, c])
                base buffer_size (wpos + 2))
      else if c = CHR 0x08 then
        (if wpos + 2 \<ge> buffer_size then (buf, Inl EOVERFLOW)
         else serialize_string_bytes cs (memcpy_to buf (base + wpos) [BACKSLASH, CHR ''b''])
                base buffer_size (wpos + 2))
      else if c = CHR 0x0C then
        (if wpos + 2 \<ge> buffer_size then (buf, Inl EOVERFLOW)
         else serialize_string_bytes cs (memcpy_to buf (base + wpos) [BACKSLASH, CHR ''f''])
                base buffer_size (wpos + 2))
      else if c = CHR 0x0A then
        (if wpos + 2 \<ge> buffer_size then (buf, Inl EOVERFLOW)
         else serialize_string_bytes cs (memcpy_to buf (base + wpos) [BACKSLASH, CHR ''n''])
                base buffer_size (wpos + 2))
      else if c = CHR 0x0D then
        (if wpos + 2 \<ge> buffer_size then (buf, Inl EOVERFLOW)
         else serialize_string_bytes cs (memcpy_to buf (base + wpos) [BACKSLASH, CHR ''r''])
                base buffer_size (wpos + 2))
      else if c = CHR 0x09 then
        (if wpos + 2 \<ge> buffer_size then (buf, Inl EOVERFLOW)
         else serialize_string_bytes cs (memcpy_to buf (base + wpos) [BACKSLASH, CHR ''t''])
                base buffer_size (wpos + 2))
      else
        (if wpos + 1 \<ge> buffer_size then (buf, Inl EOVERFLOW)
         else serialize_string_bytes cs (memcpy_to buf (base + wpos) [c])
                base buffer_size (wpos + 1)))"

text \<open>
  \<^verbatim>\<open>jsonk_serialize(value, buffer, buffer_size, &written)\<close>. The caller's buffer is
  \<open>buf\<close> and \<^verbatim>\<open>buffer\<close> points to its index \<open>base\<close>, so that the recursive calls
  on \<^verbatim>\<open>buffer + pos\<close> with \<^verbatim>\<open>buffer_size - pos\<close> work on the same store. The result is
  the store after the call, with the error code or the value of \<^verbatim>\<open>*written\<close>. The
  loops over the members and the elements carry \<^verbatim>\<open>first\<close> and \<^verbatim>\<open>pos\<close>.
\<close>

function jsonk_serialize ::
    "jsonk_value \<Rightarrow> string \<Rightarrow> nat \<Rightarrow> nat \<Rightarrow> string \<times> (jsonk_errno + nat)"
and serialize_members ::
    "jsonk_object \<Rightarrow> bool \<Rightarrow> string \<Rightarrow> nat \<Rightarrow> nat \<Rightarrow> nat \<Rightarrow> string \<times> (jsonk_errno + nat)"
and serialize_elements ::
    "jsonk_array \<Rightarrow> bool \<Rightarrow> string \<Rightarrow> nat \<Rightarrow> nat \<Rightarrow> nat \<Rightarrow> string \<times> (jsonk_errno + nat)"
where
  "jsonk_serialize JSONK_VALUE_NULL buf base buffer_size =
     (if 4 \<ge> buffer_size then (buf, Inl EOVERFLOW)
      else (memcpy_to buf base ''null'', Inr 4))"
| "jsonk_serialize (JSONK_VALUE_BOOLEAN b) buf base buffer_size =
     (if b then
        (if 4 \<ge> buffer_size then (buf, Inl EOVERFLOW)
         else (memcpy_to buf base ''true'', Inr 4))
      else
        (if 5 \<ge> buffer_size then (buf, Inl EOVERFLOW)
         else (memcpy_to buf base ''false'', Inr 5)))"
| "jsonk_serialize (JSONK_VALUE_NUMBER i f neg is_int) buf base buffer_size =
     (if is_int then
        (case snprintf buf base buffer_size (fmt_lld (if neg then - i else i)) of
           (buf', len) \<Rightarrow>
             if len \<ge> buffer_size then (buf', Inl EOVERFLOW) else (buf', Inr len))
      else
        (case snprintf buf base buffer_size
                (fmt_lld (if neg then - i else i) @ ''.'' @ fmt_u f) of
           (buf', len) \<Rightarrow>
             if len \<ge> buffer_size then (buf', Inl EOVERFLOW) else (buf', Inr len)))"
| "jsonk_serialize (JSONK_VALUE_STRING data) buf base buffer_size =
     (if 1 \<ge> buffer_size then (buf, Inl EOVERFLOW)
      else
        (case serialize_string_bytes data (memcpy_to buf base [DQUOTE]) base buffer_size 1 of
           (buf', Inl e) \<Rightarrow> (buf', Inl e)
         | (buf', Inr wpos) \<Rightarrow>
             if wpos + 1 \<ge> buffer_size then (buf', Inl EOVERFLOW)
             else (memcpy_to buf' (base + wpos) [DQUOTE], Inr (wpos + 1))))"
| "jsonk_serialize (JSONK_VALUE_OBJECT members) buf base buffer_size =
     (if 1 \<ge> buffer_size then (buf, Inl EOVERFLOW)
      else
        (case serialize_members members True (memcpy_to buf base ''{'') base buffer_size 1 of
           (buf', Inl e) \<Rightarrow> (buf', Inl e)
         | (buf', Inr wpos) \<Rightarrow>
             if wpos + 1 \<ge> buffer_size then (buf', Inl EOVERFLOW)
             else (memcpy_to buf' (base + wpos) ''}'', Inr (wpos + 1))))"
| "jsonk_serialize (JSONK_VALUE_ARRAY elements) buf base buffer_size =
     (if 1 \<ge> buffer_size then (buf, Inl EOVERFLOW)
      else
        (case serialize_elements elements True (memcpy_to buf base ''['') base buffer_size 1 of
           (buf', Inl e) \<Rightarrow> (buf', Inl e)
         | (buf', Inr wpos) \<Rightarrow>
             if wpos + 1 \<ge> buffer_size then (buf', Inl EOVERFLOW)
             else (memcpy_to buf' (base + wpos) '']'', Inr (wpos + 1))))"
| "serialize_members [] first buf base buffer_size wpos = (buf, Inr wpos)"
| "serialize_members ((key, v) # ms) first buf base buffer_size wpos =
     (if \<not> first \<and> wpos + 1 \<ge> buffer_size then (buf, Inl EOVERFLOW)
      else
        (let buf1 = (if first then buf else memcpy_to buf (base + wpos) '','');
             pos1 = (if first then wpos else wpos + 1)
         in if pos1 + length key + 3 \<ge> buffer_size then (buf1, Inl EOVERFLOW)
            else
              (let buf2 = memcpy_to buf1 (base + pos1) ([DQUOTE] @ key @ [DQUOTE] @ '':'');
                   pos2 = pos1 + length key + 3
               in case jsonk_serialize v buf2 (base + pos2) (buffer_size - pos2) of
                    (buf3, Inl e) \<Rightarrow> (buf3, Inl e)
                  | (buf3, Inr value_written) \<Rightarrow>
                      serialize_members ms False buf3 base buffer_size (pos2 + value_written))))"
| "serialize_elements [] first buf base buffer_size wpos = (buf, Inr wpos)"
| "serialize_elements (v # vs) first buf base buffer_size wpos =
     (if \<not> first \<and> wpos + 1 \<ge> buffer_size then (buf, Inl EOVERFLOW)
      else
        (let buf1 = (if first then buf else memcpy_to buf (base + wpos) '','');
             pos1 = (if first then wpos else wpos + 1)
         in case jsonk_serialize v buf1 (base + pos1) (buffer_size - pos1) of
              (buf2, Inl e) \<Rightarrow> (buf2, Inl e)
            | (buf2, Inr element_written) \<Rightarrow>
                serialize_elements vs False buf2 base buffer_size (pos1 + element_written)))"
  by pat_completeness auto
termination
  by (relation "measure (\<lambda>x. case x of
          Inl (v, _) \<Rightarrow> 2 * size v
        | Inr (Inl (ms, _)) \<Rightarrow> 2 * size_list (size_prod (\<lambda>x. 0) size) ms + 1
        | Inr (Inr (vs, _)) \<Rightarrow> 2 * size_list size vs + 1)") auto


subsection \<open>Objects and arrays\<close>

text \<open>
  \<^verbatim>\<open>jsonk_object_add_member_tracked(obj, key, key_len, value, parser)\<close>: the member
  limit, the key length limit, the budget, then a new member with the first
  \<^verbatim>\<open>key_len\<close> bytes of \<^verbatim>\<open>key\<close> at the tail of the list.
\<close>

definition jsonk_object_add_member_tracked ::
    "jsonk_object \<Rightarrow> string \<Rightarrow> nat \<Rightarrow> jsonk_value \<Rightarrow> jsonk_parser option
       \<Rightarrow> jsonk_errno + (jsonk_object \<times> jsonk_parser option)" where
  "jsonk_object_add_member_tracked obj key key_len v parser =
     (if length obj \<ge> JSONK_MAX_OBJECT_MEMBERS then Inl ENOSPC
      else if key_len > JSONK_MAX_KEY_LENGTH then Inl EINVAL
      else if (case parser of
                 Some p \<Rightarrow> total_memory_used p + sizeof_jsonk_member + key_len + 1
                             > JSONK_MAX_TOTAL_MEMORY
               | None \<Rightarrow> False) then Inl ENOMEM
      else case jsonk_tracked_alloc parser (key_len + 1) of
             None \<Rightarrow> Inl ENOMEM
           | Some parser' \<Rightarrow> Inr (obj @ [(take key_len key, v)], parser'))"

definition jsonk_object_add_member ::
    "jsonk_object \<Rightarrow> string \<Rightarrow> nat \<Rightarrow> jsonk_value \<Rightarrow> jsonk_errno + jsonk_object" where
  "jsonk_object_add_member obj key key_len v =
     (case jsonk_object_add_member_tracked obj key key_len v None of
        Inl e \<Rightarrow> Inl e
      | Inr (obj', _) \<Rightarrow> Inr obj')"

text \<open>
  \<^verbatim>\<open>jsonk_object_find_member\<close>: the first member whose key has length
  \<^verbatim>\<open>key_len\<close> and equals the first \<^verbatim>\<open>key_len\<close> bytes of \<^verbatim>\<open>key\<close>. The member
  pointer is modelled by the member's index in the list.
\<close>

fun jsonk_object_find_member :: "jsonk_object \<Rightarrow> string \<Rightarrow> nat \<Rightarrow> nat option" where
  "jsonk_object_find_member [] key key_len = None"
| "jsonk_object_find_member ((k, v) # ms) key key_len =
     (if length k = key_len \<and> k = take key_len key then Some 0
      else map_option Suc (jsonk_object_find_member ms key key_len))"

definition jsonk_object_remove_member ::
    "jsonk_object \<Rightarrow> string \<Rightarrow> nat \<Rightarrow> jsonk_errno + jsonk_object" where
  "jsonk_object_remove_member obj key key_len =
     (case jsonk_object_find_member obj key key_len of
        None \<Rightarrow> Inl ENOENT
      | Some i \<Rightarrow> Inr (take i obj @ drop (Suc i) obj))"

definition jsonk_array_add_element_tracked ::
    "jsonk_array \<Rightarrow> jsonk_value \<Rightarrow> jsonk_parser option
       \<Rightarrow> jsonk_errno + (jsonk_array \<times> jsonk_parser option)" where
  "jsonk_array_add_element_tracked arr v parser =
     (if length arr \<ge> JSONK_MAX_ARRAY_SIZE then Inl ENOSPC
      else if (case parser of
                 Some p \<Rightarrow> total_memory_used p + sizeof_jsonk_array_element
                             > JSONK_MAX_TOTAL_MEMORY
               | None \<Rightarrow> False) then Inl ENOMEM
      else Inr (arr @ [v],
                map_option (\<lambda>p. p\<lparr>total_memory_used :=
                                      total_memory_used p + sizeof_jsonk_array_element\<rparr>) parser))"

subsection \<open>Deep copy\<close>

text \<open>
  \<^verbatim>\<open>jsonk_value_deep_copy(source, current_depth)\<close>. A string is copied through
  \<^verbatim>\<open>jsonk_value_create_string_tracked\<close>, which unescapes its argument. In the loops
  over members and elements a child whose copy is \<^verbatim>\<open>NULL\<close> is skipped, and the result
  of adding the copy is not looked at. The third argument of the loops is the copy so far.
\<close>

function jsonk_value_deep_copy :: "jsonk_value \<Rightarrow> nat \<Rightarrow> jsonk_value option"
and deep_copy_members :: "jsonk_object \<Rightarrow> nat \<Rightarrow> jsonk_object \<Rightarrow> jsonk_object"
and deep_copy_elements :: "jsonk_array \<Rightarrow> nat \<Rightarrow> jsonk_array \<Rightarrow> jsonk_array"
where
  "jsonk_value_deep_copy JSONK_VALUE_NULL current_depth =
     (if current_depth > JSONK_MAX_DEPTH then None else Some JSONK_VALUE_NULL)"
| "jsonk_value_deep_copy (JSONK_VALUE_BOOLEAN b) current_depth =
     (if current_depth > JSONK_MAX_DEPTH then None else Some (JSONK_VALUE_BOOLEAN b))"
| "jsonk_value_deep_copy (JSONK_VALUE_NUMBER i f neg is_int) current_depth =
     (if current_depth > JSONK_MAX_DEPTH then None
      else Some (JSONK_VALUE_NUMBER i f neg is_int))"
| "jsonk_value_deep_copy (JSONK_VALUE_STRING data) current_depth =
     (if current_depth > JSONK_MAX_DEPTH then None
      else map_option fst (jsonk_value_create_string_tracked data None))"
| "jsonk_value_deep_copy (JSONK_VALUE_OBJECT members) current_depth =
     (if current_depth > JSONK_MAX_DEPTH then None
      else Some (JSONK_VALUE_OBJECT (deep_copy_members members current_depth [])))"
| "jsonk_value_deep_copy (JSONK_VALUE_ARRAY elements) current_depth =
     (if current_depth > JSONK_MAX_DEPTH then None
      else Some (JSONK_VALUE_ARRAY (deep_copy_elements elements current_depth [])))"
| "deep_copy_members [] current_depth copy = copy"
| "deep_copy_members ((key, v) # ms) current_depth copy =
     (case jsonk_value_deep_copy v (current_depth + 1) of
        None \<Rightarrow> deep_copy_members ms current_depth copy
      | Some value_copy \<Rightarrow>
          (case jsonk_object_add_member_tracked copy key (length key) value_copy None of
             Inl e \<Rightarrow> deep_copy_members ms current_depth copy
           | Inr (copy', _) \<Rightarrow> deep_copy_members ms current_depth copy'))"
| "deep_copy_elements [] current_depth copy = copy"
| "deep_copy_elements (v # vs) current_depth copy =
     (case jsonk_value_deep_copy v (current_depth + 1) of
        None \<Rightarrow> deep_copy_elements vs current_depth copy
      | Some value_copy \<Rightarrow>
          (case jsonk_array_add_element_tracked copy value_copy None of
             Inl e \<Rightarrow> deep_copy_elements vs current_depth copy
           | Inr (copy', _) \<Rightarrow> deep_copy_elements vs current_depth copy'))"
  by pat_completeness auto
termination
  by (relation "measure (\<lambda>x. case x of
          Inl (v, _) \<Rightarrow> 2 * size v
        | Inr (Inl (ms, _)) \<Rightarrow> 2 * size_list (size_prod (\<lambda>x. 0) size) ms + 1
        | Inr (Inr (vs, _)) \<Rightarrow> 2 * size_list size vs + 1)") auto

subsection \<open>Merge-patch engine\<close>

text \<open>The \<^verbatim>\<open>is_empty\<close> test of \<^verbatim>\<open>jsonk_merge_objects\<close>.\<close>

fun is_empty_value :: "jsonk_value \<Rightarrow> bool" where
  "is_empty_value JSONK_VALUE_NULL = True"
| "is_empty_value (JSONK_VALUE_STRING data) = (length data = 0)"
| "is_empty_value (JSONK_VALUE_OBJECT members) = (length members = 0)"
| "is_empty_value (JSONK_VALUE_ARRAY elements) = (length elements = 0)"
| "is_empty_value _ = False"

text \<open>
  The replacement branch: \<^verbatim>\<open>target_member->value\<close> becomes the deep copy of the patch
  value; \<^verbatim>\<open>-ENOMEM\<close> when the copy is \<^verbatim>\<open>NULL\<close>.
\<close>

definition replace_member_value ::
    "jsonk_object \<Rightarrow> nat \<Rightarrow> jsonk_value \<Rightarrow> jsonk_errno + jsonk_object" where
  "replace_member_value target i v =
     (case jsonk_value_deep_copy v 1 of
        None \<Rightarrow> Inl ENOMEM
      | Some new_value \<Rightarrow> Inr (target[i := (fst (target ! i), new_value)]))"

text \<open>
  The loop of \<^verbatim>\<open>jsonk_merge_objects\<close> over the members of the patch, with the target
  object and \<^verbatim>\<open>*changed\<close> as state. Any error ends the loop at once.
\<close>

function merge_members ::
    "jsonk_object \<Rightarrow> jsonk_object \<Rightarrow> bool \<Rightarrow> jsonk_errno + (jsonk_object \<times> bool)" where
  "merge_members target [] changed = Inr (target, changed)"
| "merge_members target ((key, v) # rest) changed =
     (let target_member = jsonk_object_find_member target key (length key)
      in if is_empty_value v then
           (case target_member of
              Some i \<Rightarrow>
                (case jsonk_object_remove_member target key (length key) of
                   Inl e \<Rightarrow> Inl e
                 | Inr target' \<Rightarrow> merge_members target' rest True)
            | None \<Rightarrow> merge_members target rest changed)
         else
           (case target_member of
              None \<Rightarrow>
                (case jsonk_value_deep_copy v 1 of
                   None \<Rightarrow> Inl ENOMEM
                 | Some value_copy \<Rightarrow>
                     (case jsonk_object_add_member target key (length key) value_copy of
                        Inl e \<Rightarrow> Inl e
                      | Inr target' \<Rightarrow> merge_members target' rest True))
            | Some i \<Rightarrow>
                (case v of
                   JSONK_VALUE_OBJECT patch_members \<Rightarrow>
                     (case snd (target ! i) of
                        JSONK_VALUE_OBJECT target_members \<Rightarrow>
                          (case merge_members target_members patch_members False of
                             Inl e \<Rightarrow> Inl e
                           | Inr (target_members', sub_changed) \<Rightarrow>
                               merge_members
                                 (target[i := (fst (target ! i),
                                               JSONK_VALUE_OBJECT target_members')])
                                 rest (if sub_changed then True else changed))
                      | _ \<Rightarrow>
                          (case replace_member_value target i v of
                             Inl e \<Rightarrow> Inl e
                           | Inr target' \<Rightarrow> merge_members target' rest True))
                 | _ \<Rightarrow>
                     (case replace_member_value target i v of
                        Inl e \<Rightarrow> Inl e
                      | Inr target' \<Rightarrow> merge_members target' rest True))))"
  by pat_completeness auto
termination
  by (relation "measure (\<lambda>(target, patch, changed).
          size_list (size_prod (\<lambda>x. 0) size) patch)") auto

definition jsonk_merge_objects ::
    "jsonk_object \<Rightarrow> jsonk_object \<Rightarrow> jsonk_errno + (jsonk_object \<times> bool)" where
  "jsonk_merge_objects target patch = merge_members target patch False"

subsection \<open>Token scanner\<close>

text \<open>
  The loops of the form \<^verbatim>\<open>while (pos < buffer_len) { if (P(buffer[pos])) pos++; else break; }\<close>:
  the result is the position at which the loop stops.
\<close>

function skip_while :: "(char \<Rightarrow> bool) \<Rightarrow> string \<Rightarrow> nat \<Rightarrow> nat" where
  "skip_while P buf i =
     (if i < length buf \<and> P (buf ! i) then skip_while P buf (Suc i) else i)"
  by pat_completeness auto
termination
  by (relation "measure (\<lambda>(P, buf, i). length buf - i)") auto

declare skip_while.simps [simp del]

definition jsonk_is_whitespace :: "char \<Rightarrow> bool" where
  "jsonk_is_whitespace c =
     (c = CHR '' '' \<or> c = CHR 0x09 \<or> c = CHR 0x0A \<or> c = CHR 0x0D)"

definition jsonk_skip_whitespace :: "jsonk_parser \<Rightarrow> jsonk_parser" where
  "jsonk_skip_whitespace p = p\<lparr>pos := skip_while jsonk_is_whitespace (buffer p) (pos p)\<rparr>"

text \<open>\<^verbatim>\<open>jsonk_peek_char\<close>: the zero byte at the end of the buffer.\<close>

definition jsonk_peek_char :: "jsonk_parser \<Rightarrow> char" where
  "jsonk_peek_char p = (if pos p \<ge> length (buffer p) then NUL else buffer p ! pos p)"

definition jsonk_parser_init :: "string \<Rightarrow> jsonk_parser" where
  "jsonk_parser_init buf =
     \<lparr>buffer = buf, pos = 0, total_memory_used = 0, string_count = 0\<rparr>"

text \<open>
  The loop of \<^verbatim>\<open>jsonk_parse_string\<close> from position \<open>i\<close>: the position of the closing
  quote, or \<^term>\<open>None\<close> for \<^verbatim>\<open>-EINVAL\<close>. The four hexadecimal digits after
  \<^verbatim>\<open>\u\<close> must all lie inside the buffer.
\<close>

definition is_simple_escape :: "char \<Rightarrow> bool" where
  "is_simple_escape c =
     (c = DQUOTE \<or> c = BACKSLASH \<or> c = CHR ''/'' \<or> c = CHR ''b'' \<or> c = CHR ''f''
      \<or> c = CHR ''n'' \<or> c = CHR ''r'' \<or> c = CHR ''t'')"

function parse_string_loop :: "string \<Rightarrow> nat \<Rightarrow> nat option" where
  "parse_string_loop buf i =
     (if i < length buf then
        (let c = buf ! i
         in if c = DQUOTE then Some i
            else if c = BACKSLASH then
              (if i + 1 \<ge> length buf then None
               else
                 (let e = buf ! (i + 1)
                  in if is_simple_escape e then parse_string_loop buf (i + 2)
                     else if e = CHR ''u'' then
                       (if i + 6 \<le> length buf
                           \<and> list_all is_hex_digit (take 4 (drop (i + 2) buf))
                        then parse_string_loop buf (i + 6)
                        else None)
                     else None))
            else if (of_char c :: nat) < 32 then None
            else parse_string_loop buf (i + 1))
      else None)"
  by pat_completeness auto
termination
  by (relation "measure (\<lambda>(buf, i). length buf - i)") auto

declare parse_string_loop.simps [simp del]

definition jsonk_parse_string :: "jsonk_parser \<Rightarrow> jsonk_errno + (jsonk_parser \<times> jsonk_token)" where
  "jsonk_parse_string p =
     (let start_pos = pos p + 1
      in case parse_string_loop (buffer p) start_pos of
           None \<Rightarrow> Inl EINVAL
         | Some close \<Rightarrow>
             Inr (p\<lparr>pos := close + 1\<rparr>,
                  \<lparr>tok_type = JSONK_TOKEN_STRING, tok_start = start_pos,
                   tok_len = close - start_pos\<rparr>))"

text \<open>
  \<^verbatim>\<open>jsonk_parse_number\<close>, in its four steps: the sign, the integer part, the
  fraction and the exponent. Each step maps the position to the next one, or fails.
\<close>

definition number_sign :: "jsonk_parser \<Rightarrow> jsonk_parser" where
  "number_sign p = (if jsonk_peek_char p = CHR ''-'' then p\<lparr>pos := pos p + 1\<rparr> else p)"

definition number_integer_part :: "jsonk_parser \<Rightarrow> jsonk_parser option" where
  "number_integer_part p =
     (let c = jsonk_peek_char p
      in if c = CHR ''0'' then
           (let p1 = p\<lparr>pos := pos p + 1\<rparr>
            in if is_digit (jsonk_peek_char p1) then None else Some p1)
         else if is_digit c then
           Some (p\<lparr>pos := skip_while is_digit (buffer p) (pos p + 1)\<rparr>)
         else None)"

definition number_fraction :: "jsonk_parser \<Rightarrow> jsonk_parser option" where
  "number_fraction p =
     (if pos p < length (buffer p) \<and> buffer p ! pos p = CHR ''.'' then
        (let i = pos p + 1
         in if i \<ge> length (buffer p) \<or> \<not> is_digit (buffer p ! i) then None
            else Some (p\<lparr>pos := skip_while is_digit (buffer p) i\<rparr>))
      else Some p)"

definition number_exponent :: "jsonk_parser \<Rightarrow> jsonk_parser option" where
  "number_exponent p =
     (if pos p < length (buffer p)
         \<and> (buffer p ! pos p = CHR ''e'' \<or> buffer p ! pos p = CHR ''E'') then
        (let i = pos p + 1;
             j = (if i < length (buffer p)
                     \<and> (buffer p ! i = CHR ''+'' \<or> buffer p ! i = CHR ''-'')
                  then i + 1 else i)
         in if j \<ge> length (buffer p) \<or> \<not> is_digit (buffer p ! j) then None
            else Some (p\<lparr>pos := skip_while is_digit (buffer p) j\<rparr>))
      else Some p)"

definition jsonk_parse_number :: "jsonk_parser \<Rightarrow> jsonk_errno + (jsonk_parser \<times> jsonk_token)" where
  "jsonk_parse_number p =
     (let start_pos = pos p
      in case number_integer_part (number_sign p) of
           None \<Rightarrow> Inl EINVAL
         | Some p1 \<Rightarrow>
             (case number_fraction p1 of
                None \<Rightarrow> Inl EINVAL
              | Some p2 \<Rightarrow>
                  (case number_exponent p2 of
                     None \<Rightarrow> Inl EINVAL
                   | Some p3 \<Rightarrow>
                       Inr (p3, \<lparr>tok_type = JSONK_TOKEN_NUMBER, tok_start = start_pos,
                                 tok_len = pos p3 - start_pos\<rparr>))))"

text \<open>\<^verbatim>\<open>jsonk_parse_literal\<close>: the three literals are tried in the order of the table.\<close>

definition literal_at :: "jsonk_parser \<Rightarrow> string \<Rightarrow> bool" where
  "literal_at p lit =
     (pos p + length lit \<le> length (buffer p)
      \<and> take (length lit) (drop (pos p) (buffer p)) = lit)"

definition jsonk_parse_literal :: "jsonk_parser \<Rightarrow> jsonk_errno + (jsonk_parser \<times> jsonk_token)" where
  "jsonk_parse_literal p =
     (if literal_at p ''true'' then
        Inr (p\<lparr>pos := pos p + 4\<rparr>,
             \<lparr>tok_type = JSONK_TOKEN_TRUE, tok_start = pos p, tok_len = 4\<rparr>)
      else if literal_at p ''false'' then
        Inr (p\<lparr>pos := pos p + 5\<rparr>,
             \<lparr>tok_type = JSONK_TOKEN_FALSE, tok_start = pos p, tok_len = 5\<rparr>)
      else if literal_at p ''null'' then
        Inr (p\<lparr>pos := pos p + 4\<rparr>,
             \<lparr>tok_type = JSONK_TOKEN_NULL, tok_start = pos p, tok_len = 4\<rparr>)
      else Inl EINVAL)"

definition single_char_token ::
    "jsonk_parser \<Rightarrow> jsonk_token_type \<Rightarrow> jsonk_errno + (jsonk_parser \<times> jsonk_token)" where
  "single_char_token p t =
     Inr (p\<lparr>pos := pos p + 1\<rparr>, \<lparr>tok_type = t, tok_start = pos p, tok_len = 1\<rparr>)"

definition jsonk_next_token :: "jsonk_parser \<Rightarrow> jsonk_errno + (jsonk_parser \<times> jsonk_token)" where
  "jsonk_next_token p0 =
     (let p = jsonk_skip_whitespace p0
      in if pos p \<ge> length (buffer p) then Inl ENODATA
         else
           (let c = buffer p ! pos p
            in if c = CHR ''{'' then single_char_token p JSONK_TOKEN_OBJECT_START
               else if c = CHR ''}'' then single_char_token p JSONK_TOKEN_OBJECT_END
               else if c = CHR ''['' then single_char_token p JSONK_TOKEN_ARRAY_START
               else if c = CHR '']'' then single_char_token p JSONK_TOKEN_ARRAY_END
               else if c = CHR '':'' then single_char_token p JSONK_TOKEN_COLON
               else if c = CHR '','' then single_char_token p JSONK_TOKEN_COMMA
               else if c = DQUOTE then jsonk_parse_string p
               else if c = CHR ''-'' \<or> is_digit c then jsonk_parse_number p
               else if c = CHR ''t'' \<or> c = CHR ''f'' \<or> c = CHR ''n'' then jsonk_parse_literal p
               else Inl EINVAL))"

text \<open>The bytes of a token: \<^verbatim>\<open>token.start\<close> with \<^verbatim>\<open>token.len\<close>.\<close>

definition token_bytes :: "jsonk_parser \<Rightarrow> jsonk_token \<Rightarrow> string" where
  "token_bytes p token = take (tok_len token) (drop (tok_start token) (buffer p))"

subsection \<open>Recursive parser\<close>

text \<open>
  \<^verbatim>\<open>jsonk_parse_value\<close>, \<^verbatim>\<open>jsonk_parse_object\<close> and \<^verbatim>\<open>jsonk_parse_array\<close>. The
  first argument is the value of \<^verbatim>\<open>parser->depth\<close> at entry: \<^verbatim>\<open>jsonk_parse_value\<close>
  increments the field before it dispatches and decrements it on every way out, so the
  field has the same value again when the function returns. The result is
  \<^term>\<open>None\<close> for \<^verbatim>\<open>NULL\<close>, or the parser state with the value.

  In \<open>parse_object_members\<close>, the body of the \<^verbatim>\<open>while (true)\<close> loop, the variable
  \<open>token\<close> is rebound by every \<^verbatim>\<open>jsonk_next_token\<close>, as the single C variable is
  overwritten: the key is copied (with its terminating zero byte) from the string token,
  and the length passed to \<^verbatim>\<open>jsonk_object_add_member_tracked\<close> is read from
  \<open>token\<close> after the colon has been scanned into it.

  Both loops end: each round adds a member or an element, and adding fails at
  \<^verbatim>\<open>JSONK_MAX_OBJECT_MEMBERS\<close> and \<^verbatim>\<open>JSONK_MAX_ARRAY_SIZE\<close>.
\<close>

function jsonk_parse_value :: "nat \<Rightarrow> jsonk_parser \<Rightarrow> (jsonk_parser \<times> jsonk_value) option"
and jsonk_parse_object :: "nat \<Rightarrow> jsonk_parser \<Rightarrow> (jsonk_parser \<times> jsonk_value) option"
and parse_object_members ::
    "nat \<Rightarrow> jsonk_parser \<Rightarrow> jsonk_token \<Rightarrow> jsonk_object \<Rightarrow> (jsonk_parser \<times> jsonk_value) option"
and jsonk_parse_array :: "nat \<Rightarrow> jsonk_parser \<Rightarrow> (jsonk_parser \<times> jsonk_value) option"
and parse_array_elements ::
    "nat \<Rightarrow> jsonk_parser \<Rightarrow> jsonk_array \<Rightarrow> (jsonk_parser \<times> jsonk_value) option"
where
  "jsonk_parse_value depth p =
     (if depth \<ge> JSONK_MAX_DEPTH then None
      else
        (case jsonk_next_token p of
           Inl e \<Rightarrow> None
         | Inr (p, token) \<Rightarrow>
             (case tok_type token of
                JSONK_TOKEN_OBJECT_START \<Rightarrow>
                  jsonk_parse_object (depth + 1) (p\<lparr>pos := pos p - tok_len token\<rparr>)
              | JSONK_TOKEN_ARRAY_START \<Rightarrow>
                  jsonk_parse_array (depth + 1) (p\<lparr>pos := pos p - tok_len token\<rparr>)
              | JSONK_TOKEN_STRING \<Rightarrow>
                  (case jsonk_value_create_string_tracked (token_bytes p token) (Some p) of
                     Some (v, Some p') \<Rightarrow> Some (p', v)
                   | _ \<Rightarrow> None)
              | JSONK_TOKEN_NUMBER \<Rightarrow>
                  map_option (Pair p) (jsonk_value_create_number (token_bytes p token))
              | JSONK_TOKEN_TRUE \<Rightarrow> Some (p, JSONK_VALUE_BOOLEAN True)
              | JSONK_TOKEN_FALSE \<Rightarrow> Some (p, JSONK_VALUE_BOOLEAN False)
              | JSONK_TOKEN_NULL \<Rightarrow> Some (p, JSONK_VALUE_NULL)
              | _ \<Rightarrow> None)))"
| "jsonk_parse_object depth p =
     (case jsonk_next_token p of
        Inl e \<Rightarrow> None
      | Inr (p, token) \<Rightarrow>
          if tok_type token \<noteq> JSONK_TOKEN_OBJECT_START then None
          else
            (case jsonk_next_token p of
               Inl e \<Rightarrow> None
             | Inr (p, token) \<Rightarrow>
                 if tok_type token = JSONK_TOKEN_OBJECT_END then Some (p, JSONK_VALUE_OBJECT [])
                 else parse_object_members depth p token []))"
| "parse_object_members depth p token obj =
     (if tok_type token \<noteq> JSONK_TOKEN_STRING then None
      else
        (let key = token_bytes p token @ [NUL]
         in case jsonk_next_token p of
              Inl e \<Rightarrow> None
            | Inr (p, token) \<Rightarrow>
                if tok_type token \<noteq> JSONK_TOKEN_COLON then None
                else
                  (case jsonk_parse_value depth p of
                     None \<Rightarrow> None
                   | Some (p, member_value) \<Rightarrow>
                       (case jsonk_object_add_member_tracked obj key (tok_len token)
                               member_value (Some p) of
                          Inr (obj', Some p) \<Rightarrow>
                            (case jsonk_next_token p of
                               Inl e \<Rightarrow> None
                             | Inr (p, token) \<Rightarrow>
                                 if tok_type token = JSONK_TOKEN_OBJECT_END
                                 then Some (p, JSONK_VALUE_OBJECT obj')
                                 else if tok_type token \<noteq> JSONK_TOKEN_COMMA then None
                                 else
                                   (case jsonk_next_token p of
                                      Inl e \<Rightarrow> None
                                    | Inr (p, token) \<Rightarrow>
                                        parse_object_members depth p token obj'))
                        | _ \<Rightarrow> None))))"
| "jsonk_parse_array depth p =
     (case jsonk_next_token p of
        Inl e \<Rightarrow> None
      | Inr (p, token) \<Rightarrow>
          if tok_type token \<noteq> JSONK_TOKEN_ARRAY_START then None
          else parse_array_elements depth p [])"
| "parse_array_elements depth p arr =
     (let p = jsonk_skip_whitespace p
      in if pos p < length (buffer p) \<and> buffer p ! pos p = CHR '']''
         then Some (p\<lparr>pos := pos p + 1\<rparr>, JSONK_VALUE_ARRAY arr)
         else
           (case jsonk_parse_value depth p of
              None \<Rightarrow> None
            | Some (p, element_value) \<Rightarrow>
                (case jsonk_array_add_element_tracked arr element_value (Some p) of
                   Inr (arr', Some p) \<Rightarrow>
                     (case jsonk_next_token p of
                        Inl e \<Rightarrow> None
                      | Inr (p, token) \<Rightarrow>
                          if tok_type token = JSONK_TOKEN_ARRAY_END
                          then Some (p, JSONK_VALUE_ARRAY arr')
                          else if tok_type token \<noteq> JSONK_TOKEN_COMMA then None
                          else parse_array_elements depth p arr')
                 | _ \<Rightarrow> None)))"
  by pat_completeness auto
termination
  by (relation "measure (\<lambda>x. case x of
          Inl (Inl (depth, p)) \<Rightarrow> (2 * (33 - depth)) * 20002
        | Inl (Inr (depth, p)) \<Rightarrow> (2 * (33 - depth) + 1) * 20002 + 10002
        | Inr (Inl (depth, p, token, obj)) \<Rightarrow>
            (2 * (33 - depth) + 1) * 20002 + (1000 - length obj)
        | Inr (Inr (Inl (depth, p))) \<Rightarrow> (2 * (33 - depth) + 1) * 20002 + 10002
        | Inr (Inr (Inr (depth, p, arr))) \<Rightarrow>
            (2 * (33 - depth) + 1) * 20002 + (10000 - length arr))")
     (auto simp: JSONK_MAX_DEPTH_def JSONK_MAX_OBJECT_MEMBERS_def JSONK_MAX_ARRAY_SIZE_def
        jsonk_object_add_member_tracked_def jsonk_array_add_element_tracked_def
        split: if_splits option.splits)

declare jsonk_parse_value.simps [simp del] jsonk_parse_object.simps [simp del]
  parse_object_members.simps [simp del] jsonk_parse_array.simps [simp del]
  parse_array_elements.simps [simp del]

text \<open>\<^verbatim>\<open>jsonk_parse(json_str, json_len)\<close>, for a non-\<^verbatim>\<open>NULL\<close> \<^verbatim>\<open>json_str\<close>.\<close>

definition jsonk_parse :: "string \<Rightarrow> jsonk_value option" where
  "jsonk_parse json_str =
     (if length json_str = 0 then None
      else map_option snd (jsonk_parse_value 0 (jsonk_parser_init json_str)))"

subsection \<open>Applying a patch\<close>

text \<open>
  \<^verbatim>\<open>jsonk_apply_patch(target, target_len, patch, patch_len, result, result_max_len,
  &result_len)\<close>. The arguments \<open>result\<close> and \<open>result_len\<close> are the contents of the
  caller's buffer and of the caller's length variable before the call; the function
  returns the outcome with their contents after the call.
\<close>

definition jsonk_apply_patch ::
    "string \<Rightarrow> string \<Rightarrow> string \<Rightarrow> nat \<Rightarrow> nat \<Rightarrow> jsonk_patch_result \<times> string \<times> nat" where
  "jsonk_apply_patch target patch result result_max_len result_len =
     (case jsonk_parse target of
        None \<Rightarrow> (JSONK_PATCH_ERROR_PARSE, result, result_len)
      | Some target_json \<Rightarrow>
          (case target_json of
             JSONK_VALUE_OBJECT target_members \<Rightarrow>
               (case jsonk_parse patch of
                  None \<Rightarrow>
                    if length target \<le> result_max_len
                    then (JSONK_PATCH_NO_CHANGE, memcpy_to result 0 target, length target)
                    else (JSONK_PATCH_ERROR_OVERFLOW, result, result_len)
                | Some patch_json \<Rightarrow>
                    (case patch_json of
                       JSONK_VALUE_OBJECT patch_members \<Rightarrow>
                         (case jsonk_value_deep_copy target_json 0 of
                            None \<Rightarrow> (JSONK_PATCH_ERROR_MEMORY, result, result_len)
                          | Some target_copy \<Rightarrow>
                              (case target_copy of
                                 JSONK_VALUE_OBJECT copy_members \<Rightarrow>
                                   (case jsonk_merge_objects copy_members patch_members of
                                      Inl e \<Rightarrow> (JSONK_PATCH_ERROR_MEMORY, result, result_len)
                                    | Inr (merged, changed) \<Rightarrow>
                                        (case jsonk_serialize (JSONK_VALUE_OBJECT merged)
                                                result 0 result_max_len of
                                           (result', Inl e) \<Rightarrow>
                                             (if e = EOVERFLOW then JSONK_PATCH_ERROR_OVERFLOW
                                              else JSONK_PATCH_ERROR_PARSE,
                                              result', result_len)
                                         | (result', Inr written) \<Rightarrow>
                                             (if changed then JSONK_PATCH_SUCCESS
                                              else JSONK_PATCH_NO_CHANGE,
                                              result', written)))
                               | _ \<Rightarrow> (JSONK_PATCH_ERROR_MEMORY, result, result_len)))
                     | _ \<Rightarrow> (JSONK_PATCH_ERROR_TYPE, result, result_len)))
           | _ \<Rightarrow> (JSONK_PATCH_ERROR_TYPE, result, result_len)))"

subsection \<open>The compact rendering\<close>

text \<open>
  The text that the rendering rules of the serializer describe, as a function of the tree
  alone: what \<^verbatim>\<open>jsonk_serialize\<close> is compared with below.
\<close>

fun escape_string :: "string \<Rightarrow> string" where
  "escape_string [] = []"
| "escape_string (c # cs) =
     (if c = DQUOTE \<or> c = BACKSLASH then [BACKSLASH, c]
      else if c = CHR 0x08 then [BACKSLASH, CHR ''b'']
      else if c = CHR 0x0C then [BACKSLASH, CHR ''f'']
      else if c = CHR 0x0A then [BACKSLASH, CHR ''n'']
      else if c = CHR 0x0D then [BACKSLASH, CHR ''r'']
      else if c = CHR 0x09 then [BACKSLASH, CHR ''t'']
      else [c]) @ escape_string cs"

function render :: "jsonk_value \<Rightarrow> string"
and render_members :: "jsonk_object \<Rightarrow> bool \<Rightarrow> string"
and render_elements :: "jsonk_array \<Rightarrow> bool \<Rightarrow> string"
where
  "render JSONK_VALUE_NULL = ''null''"
| "render (JSONK_VALUE_BOOLEAN b) = (if b then ''true'' else ''false'')"
| "render (JSONK_VALUE_NUMBER i f neg is_int) =
     (if is_int then fmt_lld (if neg then - i else i)
      else fmt_lld (if neg then - i else i) @ ''.'' @ fmt_u f)"
| "render (JSONK_VALUE_STRING data) = [DQUOTE] @ escape_string data @ [DQUOTE]"
| "render (JSONK_VALUE_OBJECT members) = ''{'' @ render_members members True @ ''}''"
| "render (JSONK_VALUE_ARRAY elements) = ''['' @ render_elements elements True @ '']''"
| "render_members [] first = []"
| "render_members ((key, v) # ms) first =
     (if first then [] else '','') @ [DQUOTE] @ key @ [DQUOTE] @ '':'' @ render v
       @ render_members ms False"
| "render_elements [] first = []"
| "render_elements (v # vs) first =
     (if first then [] else '','') @ render v @ render_elements vs False"
  by pat_completeness auto
termination
  by (relation "measure (\<lambda>x. case x of
          Inl v \<Rightarrow> 2 * size v
        | Inr (Inl (ms, _)) \<Rightarrow> 2 * size_list (size_prod (\<lambda>x. 0) size) ms + 1
        | Inr (Inr (vs, _)) \<Rightarrow> 2 * size_list size vs + 1)") auto

text \<open>
  The outcome of a serializing step that started at position \<open>wpos\<close> and had the text
  \<open>txt\<close> to write: either \<^verbatim>\<open>-EOVERFLOW\<close>, or the new position, below the buffer size.
\<close>

definition written_ok :: "string \<Rightarrow> nat \<Rightarrow> nat \<Rightarrow> (jsonk_errno + nat) \<Rightarrow> bool" where
  "written_ok txt wpos buffer_size r =
     (case r of Inl e \<Rightarrow> e = EOVERFLOW
              | Inr w \<Rightarrow> w = wpos + length txt \<and> w < buffer_size)"

subsection \<open>Measures of a tree\<close>

text \<open>
  The nesting depth of a tree: \<open>1\<close> for a leaf and for an empty container, one more than
  the deepest child otherwise.
\<close>

function value_depth :: "jsonk_value \<Rightarrow> nat"
and members_depth :: "jsonk_object \<Rightarrow> nat"
and elements_depth :: "jsonk_array \<Rightarrow> nat"
where
  "value_depth JSONK_VALUE_NULL = 1"
| "value_depth (JSONK_VALUE_BOOLEAN b) = 1"
| "value_depth (JSONK_VALUE_NUMBER i f neg is_int) = 1"
| "value_depth (JSONK_VALUE_STRING data) = 1"
| "value_depth (JSONK_VALUE_OBJECT members) = Suc (members_depth members)"
| "value_depth (JSONK_VALUE_ARRAY elements) = Suc (elements_depth elements)"
| "members_depth [] = 0"
| "members_depth ((key, v) # ms) = max (value_depth v) (members_depth ms)"
| "elements_depth [] = 0"
| "elements_depth (v # vs) = max (value_depth v) (elements_depth vs)"
  by pat_completeness auto
termination
  by (relation "measure (\<lambda>x. case x of
          Inl v \<Rightarrow> 2 * size v
        | Inr (Inl ms) \<Rightarrow> 2 * size_list (size_prod (\<lambda>x. 0) size) ms + 1
        | Inr (Inr vs) \<Rightarrow> 2 * size_list size vs + 1)") auto

text \<open>
  Trees within the limits of the library whose strings hold no backslash. On these the
  deep copy, which sends every string through the unescaping routine, returns the tree
  itself (lemma \<open>deep_copy_plain\<close> below).
\<close>

function plain_value :: "jsonk_value \<Rightarrow> bool"
and plain_members :: "jsonk_object \<Rightarrow> bool"
and plain_elements :: "jsonk_array \<Rightarrow> bool"
where
  "plain_value JSONK_VALUE_NULL = True"
| "plain_value (JSONK_VALUE_BOOLEAN b) = True"
| "plain_value (JSONK_VALUE_NUMBER i f neg is_int) = True"
| "plain_value (JSONK_VALUE_STRING data) =
     (BACKSLASH \<notin> set data \<and> length data \<le> JSONK_MAX_STRING_LENGTH)"
| "plain_value (JSONK_VALUE_OBJECT members) =
     (length members \<le> JSONK_MAX_OBJECT_MEMBERS \<and> plain_members members)"
| "plain_value (JSONK_VALUE_ARRAY elements) =
     (length elements \<le> JSONK_MAX_ARRAY_SIZE \<and> plain_elements elements)"
| "plain_members [] = True"
| "plain_members ((key, v) # ms) =
     (length key \<le> JSONK_MAX_KEY_LENGTH \<and> plain_value v \<and> plain_members ms)"
| "plain_elements [] = True"
| "plain_elements (v # vs) = (plain_value v \<and> plain_elements vs)"
  by pat_completeness auto
termination
  by (relation "measure (\<lambda>x. case x of
          Inl v \<Rightarrow> 2 * size v
        | Inr (Inl ms) \<Rightarrow> 2 * size_list (size_prod (\<lambda>x. 0) size) ms + 1
        | Inr (Inr vs) \<Rightarrow> 2 * size_list size vs + 1)") auto

subsection \<open>Input with further bytes behind it\<close>

text \<open>
  The bytes that \<^verbatim>\<open>jsonk_parse_number\<close> reads on after the digits of a number: a
  digit, the decimal point, or the letter of an exponent.
\<close>

definition continues_number :: "char \<Rightarrow> bool" where
  "continues_number c = (is_digit c \<or> c = CHR ''.'' \<or> c = CHR ''e'' \<or> c = CHR ''E'')"

text \<open>The parser \<open>p\<close> on the longer buffer that has the bytes \<open>t\<close> appended.\<close>

definition ext :: "jsonk_parser \<Rightarrow> string \<Rightarrow> jsonk_parser" where
  "ext p t = p\<lparr>buffer := buffer p @ t\<rparr>"

text \<open>The \<^verbatim>\<open>switch\<close> of \<^verbatim>\<open>jsonk_next_token\<close> on the current byte.\<close>

definition dispatch_token ::
    "char \<Rightarrow> jsonk_parser \<Rightarrow> jsonk_errno + (jsonk_parser \<times> jsonk_token)" where
  "dispatch_token c p =
     (if c = CHR ''{'' then single_char_token p JSONK_TOKEN_OBJECT_START
      else if c = CHR ''}'' then single_char_token p JSONK_TOKEN_OBJECT_END
      else if c = CHR ''['' then single_char_token p JSONK_TOKEN_ARRAY_START
      else if c = CHR '']'' then single_char_token p JSONK_TOKEN_ARRAY_END
      else if c = CHR '':'' then single_char_token p JSONK_TOKEN_COLON
      else if c = CHR '','' then single_char_token p JSONK_TOKEN_COMMA
      else if c = DQUOTE then jsonk_parse_string p
      else if c = CHR ''-'' \<or> is_digit c then jsonk_parse_number p
      else if c = CHR ''t'' \<or> c = CHR ''f'' \<or> c = CHR ''n'' then jsonk_parse_literal p
      else Inl EINVAL)"

subsection \<open>Trees on which a patch can be applied twice\<close>







text \<open>The input that the parser has not read yet.\<close>

definition remaining :: "jsonk_parser \<Rightarrow> string" where
  "remaining p = drop (pos p) (buffer p)"

section \<open>Properties\<close>

subsection \<open>Evaluation on concrete inputs\<close>

text \<open>The defining equations, for evaluating the model on a concrete input by rewriting.\<close>

lemmas jsonk_eval =
  JSONK_MAX_DEPTH_def JSONK_MAX_STRING_LENGTH_def JSONK_MAX_ARRAY_SIZE_def
  JSONK_MAX_OBJECT_MEMBERS_def JSONK_MAX_TOTAL_MEMORY_def JSONK_MAX_KEY_LENGTH_def
  sizeof_jsonk_value_def sizeof_jsonk_member_def sizeof_jsonk_array_element_def
  S64_MAX_def UINT_MAX_def is_digit_def digit_val_def is_hex_digit_def
  BACKSLASH_def DQUOTE_def NUL_def jsonk_tracked_alloc_def jsonk_value_create_tracked_def
  jsonk_value_create_string_tracked_def simple_strtoll_def jsonk_value_create_number_def
  digit_char_def dec_digits.simps fmt_lld_def fmt_u_def snprintf_def
  jsonk_object_add_member_tracked_def jsonk_object_add_member_def jsonk_object_remove_member_def
  jsonk_array_add_element_tracked_def replace_member_value_def jsonk_merge_objects_def
  skip_while.simps jsonk_is_whitespace_def jsonk_skip_whitespace_def jsonk_peek_char_def
  jsonk_parser_init_def is_simple_escape_def parse_string_loop.simps jsonk_parse_string_def
  number_sign_def number_integer_part_def number_fraction_def number_exponent_def
  jsonk_parse_number_def literal_at_def jsonk_parse_literal_def single_char_token_def
  jsonk_next_token_def token_bytes_def
  jsonk_parse_value.simps jsonk_parse_object.simps parse_object_members.simps
  jsonk_parse_array.simps parse_array_elements.simps jsonk_parse_def jsonk_apply_patch_def
  Let_def

subsection \<open>Integer numbers and the sign flag\<close>

text \<open>
  C4. The serializer prints \<^verbatim>\<open>is_negative ? -integer : integer\<close>. The literal
  \<^verbatim>\<open>-5\<close> is parsed to the integer \<open>-5\<close> with the flag set, so the serializer
  negates it again: the tree parsed from \<^verbatim>\<open>-5\<close> is rendered as \<^verbatim>\<open>5\<close> (one byte,
  followed by the terminating zero byte of \<^verbatim>\<open>snprintf\<close>).
\<close>

theorem serialize_negative_integer_double_negation:
  \<open>jsonk_parse ''-5'' = Some (JSONK_VALUE_NUMBER (- 5) 0 True True)
   \<and> jsonk_serialize (JSONK_VALUE_NUMBER (- 5) 0 True True) ''xxxxxxxx'' 0 8
       = (CHR ''5'' # NUL # ''xxxxxx'', Inr 1)\<close>
  by (simp add: jsonk_eval)

subsection \<open>Number construction at the limits\<close>

text \<open>
  C8. Three literals at which \<^verbatim>\<open>jsonk_value_create_number\<close> leaves the claimed
  behaviour. (1) With twenty nines before the decimal point the integer part saturates at
  \<open>2^63 - 1\<close>, but the loop is left before the index is advanced, so the decimal point
  is not found and the fraction stays \<open>0\<close>. (2) For \<^verbatim>\<open>9223372036854775808.5\<close> the test
  \<^verbatim>\<open>int_part > S64_MAX / 10\<close> does not fire at \<open>922337203685477580\<close>, and the next
  digit \<open>8\<close> wraps the integer part around to \<open>-2^63\<close>. (3) On the integer path
  \<^verbatim>\<open>simple_strtoll\<close> does not saturate: \<^verbatim>\<open>9223372036854775808\<close> becomes \<open>-2^63\<close>
  with the sign flag set.
\<close>

theorem create_number_overflow_behaviour:
  \<open>jsonk_value_create_number ''99999999999999999999.5''
     = Some (JSONK_VALUE_NUMBER 9223372036854775807 0 False False)
   \<and> jsonk_value_create_number ''9223372036854775808.5''
     = Some (JSONK_VALUE_NUMBER (- 9223372036854775808) 5 False False)
   \<and> jsonk_value_create_number ''9223372036854775808''
     = Some (JSONK_VALUE_NUMBER (- 9223372036854775808) 0 True True)\<close>
  by (simp add: jsonk_eval)

subsection \<open>Round trip of the example document\<close>

text \<open>
  C3. The 41 bytes \<^verbatim>\<open>{"name":"JSONK","version":1,"active":true}\<close> are parsed to an
  object whose keys are cut to their first byte, because the key length handed to
  \<^verbatim>\<open>jsonk_object_add_member_tracked\<close> is the length of the colon token. Serializing
  the tree gives the 28 bytes \<^verbatim>\<open>{"n":"JSONK","v":1,"a":true}\<close>, not the input.
\<close>

theorem parse_serialize_example_not_identical:
  \<open>jsonk_parse ''{"name":"JSONK","version":1,"active":true}''
     = Some (JSONK_VALUE_OBJECT
              [(''n'', JSONK_VALUE_STRING ''JSONK''),
               (''v'', JSONK_VALUE_NUMBER 1 0 False True),
               (''a'', JSONK_VALUE_BOOLEAN True)])
   \<and> jsonk_serialize
        (JSONK_VALUE_OBJECT
              [(''n'', JSONK_VALUE_STRING ''JSONK''),
               (''v'', JSONK_VALUE_NUMBER 1 0 False True),
               (''a'', JSONK_VALUE_BOOLEAN True)])
        ''................................................'' 0 48
     = (''{"n":"JSONK","v":1,"a":true}....................'', Inr 28)\<close>
  by (simp add: jsonk_eval)

subsection \<open>The result buffer on overflow\<close>

text \<open>
  C2. Target \<^verbatim>\<open>{"a":1}\<close>, patch \<^verbatim>\<open>{"b":2}\<close>, a result buffer of five bytes
  \<^verbatim>\<open>xxxxx\<close> and a length variable holding \<open>7\<close>: the outcome is
  \<^verbatim>\<open>JSONK_PATCH_ERROR_OVERFLOW\<close>, the serializer has already stored the opening brace
  in the caller's buffer, and the length variable is not written (it still holds \<open>7\<close>).
\<close>

theorem apply_patch_overflow_touches_result:
  \<open>jsonk_apply_patch ''{"a":1}'' ''{"b":2}'' ''xxxxx'' 5 7
     = (JSONK_PATCH_ERROR_OVERFLOW, ''{xxxx'', 7)\<close>
  by (simp add: jsonk_eval)

subsection \<open>Stores into a buffer\<close>

lemma memcpy_to_length [simp]: "length (memcpy_to buf off xs) = length buf"
  by (induction xs arbitrary: buf off) auto

lemma memcpy_to_append:
  "off + length xs \<le> length buf \<Longrightarrow>
   memcpy_to buf off xs = take off buf @ xs @ drop (off + length xs) buf"
proof (induction xs arbitrary: buf off)
  case Nil
  then show ?case by simp
next
  case (Cons c cs)
  then have "off < length buf" by simp
  then have "buf[off := c] = take off buf @ c # drop (Suc off) buf"
    by (simp add: upd_conv_take_nth_drop)
  with Cons show ?case
    by (simp add: take_Suc_conv_app_nth add.commute)
qed

subsection \<open>The serializer leaves one byte unused\<close>

lemma serialize_string_bytes_written:
  "serialize_string_bytes data buf base buffer_size wpos = (buf', r) \<Longrightarrow> wpos < buffer_size \<Longrightarrow>
   (case r of Inl e \<Rightarrow> e = EOVERFLOW
            | Inr w \<Rightarrow> w = wpos + length (escape_string data) \<and> w < buffer_size)"
proof (induction data arbitrary: buf wpos)
  case Nil
  then show ?case by auto
next
  case (Cons c cs)
  show ?case
  proof (cases "wpos + length (escape_string [c]) \<ge> buffer_size")
    case True
    with Cons.prems show ?thesis by (auto split: if_splits)
  next
    case False
    with Cons.prems obtain b where
      "serialize_string_bytes cs b base buffer_size (wpos + length (escape_string [c])) = (buf', r)"
      by (auto split: if_splits)
    from Cons.IH [OF this] False show ?thesis
      by (auto split: sum.splits if_splits)
  qed
qed

lemma serialize_members_written:
  assumes IH: "\<And>k v buf base sz buf' r. (k, v) \<in> set ms \<Longrightarrow>
      jsonk_serialize v buf base sz = (buf', r) \<Longrightarrow> written_ok (render v) 0 sz r"
  shows "serialize_members ms first buf base sz wpos = (buf', r) \<Longrightarrow> wpos < sz \<Longrightarrow>
      written_ok (render_members ms first) wpos sz r"
  using IH
proof (induction ms arbitrary: first buf wpos)
  case Nil
  then show ?case by (auto simp: written_ok_def)
next
  case (Cons m ms)
  obtain key v where m: "m = (key, v)" by (cases m)
  define pos2 where "pos2 = (if first then wpos else wpos + 1) + length key + 3"
  define buf2 where "buf2 = memcpy_to (if first then buf else memcpy_to buf (base + wpos) '','')
       (base + (if first then wpos else wpos + 1)) ([DQUOTE] @ key @ [DQUOTE] @ '':'')"
  show ?case
  proof (cases "pos2 \<ge> sz")
    case True
    with Cons.prems(1) show ?thesis
      by (auto simp: m pos2_def Let_def written_ok_def split: if_splits)
  next
    case False
    obtain b3 r3 where s3: "jsonk_serialize v buf2 (base + pos2) (sz - pos2) = (b3, r3)"
      by (cases "jsonk_serialize v buf2 (base + pos2) (sz - pos2)")
    have v_ok: "written_ok (render v) 0 (sz - pos2) r3"
      using Cons.prems(3) [of key v, OF _ s3] by (simp add: m)
    show ?thesis
    proof (cases r3)
      case (Inl e)
      with False s3 Cons.prems(1) v_ok show ?thesis
        by (auto simp: m pos2_def buf2_def Let_def written_ok_def split: if_splits)
    next
      case (Inr w3)
      with False s3 Cons.prems(1)
      have rest: "serialize_members ms False b3 base sz (pos2 + w3) = (buf', r)"
        by (auto simp: m pos2_def buf2_def Let_def split: if_splits)
      from v_ok Inr False have "pos2 + w3 < sz" and w3: "w3 = length (render v)"
        by (auto simp: written_ok_def)
      have "\<And>k v buf base sz buf' r. (k, v) \<in> set ms \<Longrightarrow>
              jsonk_serialize v buf base sz = (buf', r) \<Longrightarrow> written_ok (render v) 0 sz r"
        using Cons.prems(3) by (meson list.set_intros(2))
      from Cons.IH [OF rest \<open>pos2 + w3 < sz\<close> this]
      have "written_ok (render_members ms False) (pos2 + w3) sz r" .
      with w3 show ?thesis
        by (auto simp: m pos2_def written_ok_def split: sum.splits)
    qed
  qed
qed


lemma serialize_elements_written:
  assumes IH: "\<And>v buf base sz buf' r. v \<in> set vs \<Longrightarrow>
      jsonk_serialize v buf base sz = (buf', r) \<Longrightarrow> written_ok (render v) 0 sz r"
  shows "serialize_elements vs first buf base sz wpos = (buf', r) \<Longrightarrow> wpos < sz \<Longrightarrow>
      written_ok (render_elements vs first) wpos sz r"
  using IH
proof (induction vs arbitrary: first buf wpos)
  case Nil
  then show ?case by (auto simp: written_ok_def)
next
  case (Cons v vs)
  define pos1 where "pos1 = (if first then wpos else wpos + 1)"
  define buf1 where "buf1 = (if first then buf else memcpy_to buf (base + wpos) '','')"
  show ?case
  proof (cases "pos1 \<ge> sz")
    case True
    with Cons.prems(1,2) show ?thesis
      by (auto simp: pos1_def Let_def written_ok_def split: if_splits)
  next
    case False
    obtain b2 r2 where s2: "jsonk_serialize v buf1 (base + pos1) (sz - pos1) = (b2, r2)"
      by (cases "jsonk_serialize v buf1 (base + pos1) (sz - pos1)")
    have v_ok: "written_ok (render v) 0 (sz - pos1) r2"
      using Cons.prems(3) [OF _ s2] by simp
    show ?thesis
    proof (cases r2)
      case (Inl e)
      with False s2 Cons.prems(1) v_ok show ?thesis
        by (auto simp: pos1_def buf1_def Let_def written_ok_def split: if_splits)
    next
      case (Inr w2)
      with False s2 Cons.prems(1)
      have rest: "serialize_elements vs False b2 base sz (pos1 + w2) = (buf', r)"
        by (auto simp: pos1_def buf1_def Let_def split: if_splits)
      from v_ok Inr False have "pos1 + w2 < sz" and w2: "w2 = length (render v)"
        by (auto simp: written_ok_def)
      have "\<And>v buf base sz buf' r. v \<in> set vs \<Longrightarrow>
              jsonk_serialize v buf base sz = (buf', r) \<Longrightarrow> written_ok (render v) 0 sz r"
        using Cons.prems(3) by (meson list.set_intros(2))
      from Cons.IH [OF rest \<open>pos1 + w2 < sz\<close> this]
      have "written_ok (render_elements vs False) (pos1 + w2) sz r" .
      with w2 show ?thesis
        by (auto simp: pos1_def written_ok_def split: sum.splits)
    qed
  qed
qed

lemma serialize_written:
  "jsonk_serialize v buf base sz = (buf', r) \<Longrightarrow> written_ok (render v) 0 sz r"
proof (induction v arbitrary: buf base sz buf' r)
  case JSONK_VALUE_NULL
  then show ?case by (auto simp: written_ok_def split: if_splits)
next
  case (JSONK_VALUE_BOOLEAN b)
  then show ?case by (auto simp: written_ok_def split: if_splits)
next
  case (JSONK_VALUE_NUMBER i f neg is_int)
  then show ?case by (auto simp: written_ok_def snprintf_def split: if_splits)
next
  case (JSONK_VALUE_STRING data)
  show ?case
  proof (cases "1 \<ge> sz")
    case True
    with JSONK_VALUE_STRING show ?thesis by (auto simp: written_ok_def)
  next
    case False
    obtain b1 r1 where s1:
      "serialize_string_bytes data (memcpy_to buf base [DQUOTE]) base sz 1 = (b1, r1)"
      by (cases "serialize_string_bytes data (memcpy_to buf base [DQUOTE]) base sz 1")
    from serialize_string_bytes_written [OF s1] False
    have "case r1 of Inl e \<Rightarrow> e = EOVERFLOW
                   | Inr w \<Rightarrow> w = 1 + length (escape_string data) \<and> w < sz" by simp
    with JSONK_VALUE_STRING s1 False show ?thesis
      by (auto simp: written_ok_def split: sum.splits if_splits)
  qed
next
  case (JSONK_VALUE_ARRAY elements)
  show ?case
  proof (cases "1 \<ge> sz")
    case True
    with JSONK_VALUE_ARRAY.prems show ?thesis by (auto simp: written_ok_def)
  next
    case False
    obtain b1 r1 where s1:
      "serialize_elements elements True (memcpy_to buf base ''['') base sz 1 = (b1, r1)"
      by (cases "serialize_elements elements True (memcpy_to buf base ''['') base sz 1")
    have "written_ok (render_elements elements True) 1 sz r1"
      using serialize_elements_written [OF _ s1] JSONK_VALUE_ARRAY.IH False by simp
    with JSONK_VALUE_ARRAY.prems s1 False show ?thesis
      by (auto simp: written_ok_def split: sum.splits if_splits)
  qed
next
  case (JSONK_VALUE_OBJECT members)
  show ?case
  proof (cases "1 \<ge> sz")
    case True
    with JSONK_VALUE_OBJECT.prems show ?thesis by (auto simp: written_ok_def)
  next
    case False
    obtain b1 r1 where s1:
      "serialize_members members True (memcpy_to buf base ''{'') base sz 1 = (b1, r1)"
      by (cases "serialize_members members True (memcpy_to buf base ''{'') base sz 1")
    have "\<And>k v buf base sz buf' r. (k, v) \<in> set members \<Longrightarrow>
            jsonk_serialize v buf base sz = (buf', r) \<Longrightarrow> written_ok (render v) 0 sz r"
      using JSONK_VALUE_OBJECT.IH by fastforce
    from serialize_members_written [OF this s1] False
    have "written_ok (render_members members True) 1 sz r1" by simp
    with JSONK_VALUE_OBJECT.prems s1 False show ?thesis
      by (auto simp: written_ok_def split: sum.splits if_splits)
  qed
qed


text \<open>
  C10. When \<^verbatim>\<open>jsonk_serialize\<close> succeeds, the number of bytes it reports is the length of
  the compact rendering and is strictly smaller than \<^verbatim>\<open>buffer_size\<close>. Hence a value
  whose rendering takes exactly \<^verbatim>\<open>buffer_size\<close> bytes is refused with
  \<^verbatim>\<open>-EOVERFLOW\<close>.
\<close>

theorem serialize_success_below_buffer_size:
  "(jsonk_serialize v buf base buffer_size = (buf', Inr written)
      \<longrightarrow> written = length (render v) \<and> written < buffer_size)
   \<and> (buffer_size = length (render v)
      \<longrightarrow> snd (jsonk_serialize v buf base buffer_size) = Inl EOVERFLOW)"
proof (rule conjI; rule impI)
  assume "jsonk_serialize v buf base buffer_size = (buf', Inr written)"
  from serialize_written [OF this]
  show "written = length (render v) \<and> written < buffer_size"
    by (simp add: written_ok_def)
next
  assume sz: "buffer_size = length (render v)"
  obtain b r where res: "jsonk_serialize v buf base buffer_size = (b, r)"
    by (cases "jsonk_serialize v buf base buffer_size")
  from serialize_written [OF res] sz have "r = Inl EOVERFLOW"
    by (cases r) (auto simp: written_ok_def)
  with res show "snd (jsonk_serialize v buf base buffer_size) = Inl EOVERFLOW" by simp
qed

theorem serialize_success_below_buffer_size_witness:
  \<open>jsonk_serialize (JSONK_VALUE_BOOLEAN True) ''xxxxxxxx'' 0 8 = (''truexxxx'', Inr 4)
   \<and> 4 = length (render (JSONK_VALUE_BOOLEAN True)) \<and> (4::nat) < 8
   \<and> snd (jsonk_serialize (JSONK_VALUE_BOOLEAN True) ''xxxx'' 0 4) = Inl EOVERFLOW\<close>
  using serialize_success_below_buffer_size
          [of "JSONK_VALUE_BOOLEAN True" "''xxxxxxxx''" 0 8 "''truexxxx''" 4]
        serialize_success_below_buffer_size
          [of "JSONK_VALUE_BOOLEAN True" "''xxxx''" 0 4 "''xxxx''" 4]
  by simp

subsection \<open>A patch that does not parse\<close>

text \<open>
  C5. When the target parses to an object and the patch does not parse: if
  \<^verbatim>\<open>target_len <= result_max_len\<close>, the target bytes are copied to the start of
  the result buffer, \<^verbatim>\<open>*result_len\<close> is the target length and the outcome is
  \<^verbatim>\<open>JSONK_PATCH_NO_CHANGE\<close>; otherwise the outcome is \<^verbatim>\<open>JSONK_PATCH_ERROR_OVERFLOW\<close>
  (and neither the buffer nor the length variable is written). The buffer holds at least
  \<^verbatim>\<open>result_max_len\<close> bytes.
\<close>

theorem apply_patch_unparsable_patch:
  assumes "jsonk_parse target = Some (JSONK_VALUE_OBJECT members)"
    and "jsonk_parse patch = None"
    and "result_max_len \<le> length result"
  shows "jsonk_apply_patch target patch result result_max_len result_len =
     (if length target \<le> result_max_len
      then (JSONK_PATCH_NO_CHANGE, target @ drop (length target) result, length target)
      else (JSONK_PATCH_ERROR_OVERFLOW, result, result_len))"
  using assms by (simp add: jsonk_apply_patch_def memcpy_to_append)

theorem apply_patch_unparsable_patch_witness:
  \<open>jsonk_parse ''{"a":1}'' = Some (JSONK_VALUE_OBJECT [(''a'', JSONK_VALUE_NUMBER 1 0 False True)])
   \<and> jsonk_parse ''{"a":}'' = None
   \<and> jsonk_apply_patch ''{"a":1}'' ''{"a":}'' ''xxxxxxxxx'' 9 0
       = (JSONK_PATCH_NO_CHANGE, ''{"a":1}xx'', 7)
   \<and> jsonk_apply_patch ''{"a":1}'' ''{"a":}'' ''xxxxxxxxx'' 6 3
       = (JSONK_PATCH_ERROR_OVERFLOW, ''xxxxxxxxx'', 3)\<close>
proof -
  have t: \<open>jsonk_parse ''{"a":1}''
             = Some (JSONK_VALUE_OBJECT [(''a'', JSONK_VALUE_NUMBER 1 0 False True)])\<close>
    by (simp add: jsonk_eval)
  have p: \<open>jsonk_parse ''{"a":}'' = None\<close>
    by (simp add: jsonk_eval)
  show ?thesis
    using t p apply_patch_unparsable_patch [OF t p, of 9 "''xxxxxxxxx''" 0]
      apply_patch_unparsable_patch [OF t p, of 6 "''xxxxxxxxx''" 3]
    by simp
qed

subsection \<open>Successful runs of the parser\<close>

text \<open>What a successful call of each parsing function has done, read off its definition.\<close>

lemma members_depth_append [simp]:
  "members_depth (ms @ ms') = max (members_depth ms) (members_depth ms')"
  by (induction ms) (auto simp: max.assoc)

lemma elements_depth_append [simp]:
  "elements_depth (vs @ vs') = max (elements_depth vs) (elements_depth vs')"
  by (induction vs) (auto simp: max.assoc)

lemma create_number_is_number:
  "jsonk_value_create_number s = Some v \<Longrightarrow> \<exists>i f neg is_int. v = JSONK_VALUE_NUMBER i f neg is_int"
  by (auto simp: jsonk_value_create_number_def Let_def split: prod.splits if_splits)

lemma create_string_is_string:
  "jsonk_value_create_string_tracked s parser = Some (v, parser') \<Longrightarrow> \<exists>data. v = JSONK_VALUE_STRING data"
  by (auto simp: jsonk_value_create_string_tracked_def Let_def split: option.splits if_splits)

lemma add_member_tracked_Inr:
  "jsonk_object_add_member_tracked obj key key_len v parser = Inr (obj', parser') \<Longrightarrow>
     obj' = obj @ [(take key_len key, v)] \<and> length obj < JSONK_MAX_OBJECT_MEMBERS
     \<and> key_len \<le> JSONK_MAX_KEY_LENGTH"
  by (auto simp: jsonk_object_add_member_tracked_def split: if_splits option.splits)

lemma add_element_tracked_Inr:
  "jsonk_array_add_element_tracked arr v parser = Inr (arr', parser') \<Longrightarrow>
     arr' = arr @ [v] \<and> length arr < JSONK_MAX_ARRAY_SIZE"
  by (auto simp: jsonk_array_add_element_tracked_def split: if_splits option.splits)


lemma jsonk_parse_value_Some:
  assumes "jsonk_parse_value depth p = Some (p', v)"
  shows "depth < JSONK_MAX_DEPTH \<and> (\<exists>p1 t. jsonk_next_token p = Inr (p1, t) \<and>
     (case tok_type t of
        JSONK_TOKEN_OBJECT_START \<Rightarrow>
          jsonk_parse_object (depth + 1) (p1\<lparr>pos := pos p1 - tok_len t\<rparr>) = Some (p', v)
      | JSONK_TOKEN_ARRAY_START \<Rightarrow>
          jsonk_parse_array (depth + 1) (p1\<lparr>pos := pos p1 - tok_len t\<rparr>) = Some (p', v)
      | JSONK_TOKEN_STRING \<Rightarrow>
          jsonk_value_create_string_tracked (token_bytes p1 t) (Some p1) = Some (v, Some p')
      | JSONK_TOKEN_NUMBER \<Rightarrow> p' = p1 \<and> jsonk_value_create_number (token_bytes p1 t) = Some v
      | JSONK_TOKEN_TRUE \<Rightarrow> p' = p1 \<and> v = JSONK_VALUE_BOOLEAN True
      | JSONK_TOKEN_FALSE \<Rightarrow> p' = p1 \<and> v = JSONK_VALUE_BOOLEAN False
      | JSONK_TOKEN_NULL \<Rightarrow> p' = p1 \<and> v = JSONK_VALUE_NULL
      | _ \<Rightarrow> False))"
  using assms
  by (subst (asm) jsonk_parse_value.simps)
     (auto split: if_splits sum.splits prod.splits jsonk_token_type.splits option.splits)

lemma jsonk_parse_object_Some:
  assumes "jsonk_parse_object depth p = Some (p', v)"
  shows "\<exists>p1 t1 p2 t2. jsonk_next_token p = Inr (p1, t1) \<and> tok_type t1 = JSONK_TOKEN_OBJECT_START
     \<and> jsonk_next_token p1 = Inr (p2, t2)
     \<and> (if tok_type t2 = JSONK_TOKEN_OBJECT_END then p' = p2 \<and> v = JSONK_VALUE_OBJECT []
         else parse_object_members depth p2 t2 [] = Some (p', v))"
  using assms
  by (subst (asm) jsonk_parse_object.simps) (auto split: if_splits sum.splits prod.splits)

lemma parse_object_members_Some:
  assumes "parse_object_members depth p token obj = Some (p', v)"
  shows "tok_type token = JSONK_TOKEN_STRING \<and>
    (\<exists>p1 t1 p2 mv obj' p3 p4 t4.
       jsonk_next_token p = Inr (p1, t1) \<and> tok_type t1 = JSONK_TOKEN_COLON
     \<and> jsonk_parse_value depth p1 = Some (p2, mv)
     \<and> jsonk_object_add_member_tracked obj (token_bytes p token @ [NUL]) (tok_len t1) mv (Some p2)
          = Inr (obj', Some p3)
     \<and> jsonk_next_token p3 = Inr (p4, t4)
     \<and> (if tok_type t4 = JSONK_TOKEN_OBJECT_END then p' = p4 \<and> v = JSONK_VALUE_OBJECT obj'
         else tok_type t4 = JSONK_TOKEN_COMMA
              \<and> (\<exists>p5 t5. jsonk_next_token p4 = Inr (p5, t5)
                    \<and> parse_object_members depth p5 t5 obj' = Some (p', v))))"
  using assms
  by (subst (asm) parse_object_members.simps)
     (force simp: Let_def split: if_splits sum.splits prod.splits option.splits)

lemma jsonk_parse_array_Some:
  assumes "jsonk_parse_array depth p = Some (p', v)"
  shows "\<exists>p1 t1. jsonk_next_token p = Inr (p1, t1) \<and> tok_type t1 = JSONK_TOKEN_ARRAY_START
     \<and> parse_array_elements depth p1 [] = Some (p', v)"
  using assms
  by (subst (asm) jsonk_parse_array.simps) (auto split: if_splits sum.splits prod.splits)

lemma parse_array_elements_Some:
  assumes "parse_array_elements depth p arr = Some (p', v)"
  shows "(let q = jsonk_skip_whitespace p in
     if pos q < length (buffer q) \<and> buffer q ! pos q = CHR '']''
     then p' = q\<lparr>pos := pos q + 1\<rparr> \<and> v = JSONK_VALUE_ARRAY arr
     else (\<exists>p2 ev arr' p3 p4 t4.
        jsonk_parse_value depth q = Some (p2, ev)
      \<and> jsonk_array_add_element_tracked arr ev (Some p2) = Inr (arr', Some p3)
      \<and> jsonk_next_token p3 = Inr (p4, t4)
      \<and> (if tok_type t4 = JSONK_TOKEN_ARRAY_END then p' = p4 \<and> v = JSONK_VALUE_ARRAY arr'
          else tok_type t4 = JSONK_TOKEN_COMMA
               \<and> parse_array_elements depth p4 arr' = Some (p', v))))"
  using assms
  by (subst (asm) parse_array_elements.simps)
     (force simp: Let_def split: if_splits sum.splits prod.splits option.splits)

subsection \<open>The depth limit\<close>

lemma parse_depth_bound:
  "\<forall>p' v. jsonk_parse_value depth p = Some (p', v) \<longrightarrow> depth + value_depth v \<le> JSONK_MAX_DEPTH"
  "\<forall>p' v. jsonk_parse_object depth p = Some (p', v) \<longrightarrow> depth \<le> JSONK_MAX_DEPTH
       \<longrightarrow> depth + value_depth v \<le> Suc JSONK_MAX_DEPTH"
  "\<forall>p' v. parse_object_members depth p token obj = Some (p', v) \<longrightarrow> depth \<le> JSONK_MAX_DEPTH
       \<longrightarrow> depth + members_depth obj \<le> JSONK_MAX_DEPTH
       \<longrightarrow> depth + value_depth v \<le> Suc JSONK_MAX_DEPTH"
  "\<forall>p' v. jsonk_parse_array depth p = Some (p', v) \<longrightarrow> depth \<le> JSONK_MAX_DEPTH
       \<longrightarrow> depth + value_depth v \<le> Suc JSONK_MAX_DEPTH"
  "\<forall>p' v. parse_array_elements depth p arr = Some (p', v) \<longrightarrow> depth \<le> JSONK_MAX_DEPTH
       \<longrightarrow> depth + elements_depth arr \<le> JSONK_MAX_DEPTH
       \<longrightarrow> depth + value_depth v \<le> Suc JSONK_MAX_DEPTH"
proof (induction depth p and depth p and depth p token obj and depth p and depth p arr
       rule: jsonk_parse_value_jsonk_parse_object_parse_object_members_jsonk_parse_array_parse_array_elements.induct)
  case (1 depth p)
  show ?case
  proof (intro allI impI)
    fix p' v assume a: "jsonk_parse_value depth p = Some (p', v)"
    from jsonk_parse_value_Some [OF a] obtain p1 t where
      d: "depth < JSONK_MAX_DEPTH" and nt: "jsonk_next_token p = Inr (p1, t)" and
      c: "case tok_type t of
        JSONK_TOKEN_OBJECT_START \<Rightarrow>
          jsonk_parse_object (depth + 1) (p1\<lparr>pos := pos p1 - tok_len t\<rparr>) = Some (p', v)
      | JSONK_TOKEN_ARRAY_START \<Rightarrow>
          jsonk_parse_array (depth + 1) (p1\<lparr>pos := pos p1 - tok_len t\<rparr>) = Some (p', v)
      | JSONK_TOKEN_STRING \<Rightarrow>
          jsonk_value_create_string_tracked (token_bytes p1 t) (Some p1) = Some (v, Some p')
      | JSONK_TOKEN_NUMBER \<Rightarrow> p' = p1 \<and> jsonk_value_create_number (token_bytes p1 t) = Some v
      | JSONK_TOKEN_TRUE \<Rightarrow> p' = p1 \<and> v = JSONK_VALUE_BOOLEAN True
      | JSONK_TOKEN_FALSE \<Rightarrow> p' = p1 \<and> v = JSONK_VALUE_BOOLEAN False
      | JSONK_TOKEN_NULL \<Rightarrow> p' = p1 \<and> v = JSONK_VALUE_NULL
      | _ \<Rightarrow> False" by blast
    have o: "tok_type t = JSONK_TOKEN_OBJECT_START \<Longrightarrow> depth + 1 + value_depth v \<le> Suc JSONK_MAX_DEPTH"
      using 1(1) [OF _ nt refl] d c by simp
    have r: "tok_type t = JSONK_TOKEN_ARRAY_START \<Longrightarrow> depth + 1 + value_depth v \<le> Suc JSONK_MAX_DEPTH"
      using 1(2) [OF _ nt refl] d c by simp
    from c d o r show "depth + value_depth v \<le> JSONK_MAX_DEPTH"
      by (cases "tok_type t")
         (auto dest!: create_number_is_number create_string_is_string)
  qed
next
  case (2 depth p)
  show ?case
  proof (intro allI impI)
    fix p' v assume a: "jsonk_parse_object depth p = Some (p', v)" and d: "depth \<le> JSONK_MAX_DEPTH"
    from jsonk_parse_object_Some [OF a] obtain p1 t1 p2 t2 where
      n1: "jsonk_next_token p = Inr (p1, t1)" and s1: "tok_type t1 = JSONK_TOKEN_OBJECT_START" and
      n2: "jsonk_next_token p1 = Inr (p2, t2)" and
      c: "if tok_type t2 = JSONK_TOKEN_OBJECT_END then p' = p2 \<and> v = JSONK_VALUE_OBJECT []
         else parse_object_members depth p2 t2 [] = Some (p', v)" by blast
    show "depth + value_depth v \<le> Suc JSONK_MAX_DEPTH"
    proof (cases "tok_type t2 = JSONK_TOKEN_OBJECT_END")
      case True
      with c d show ?thesis by simp
    next
      case False
      with c have "parse_object_members depth p2 t2 [] = Some (p', v)" by simp
      with 2 [OF n1 refl _ n2 refl False] s1 d show ?thesis by simp
    qed
  qed
next
  case (3 depth p token obj)
  show ?case
  proof (intro allI impI)
    fix p' v assume a: "parse_object_members depth p token obj = Some (p', v)"
      and d: "depth \<le> JSONK_MAX_DEPTH" and m: "depth + members_depth obj \<le> JSONK_MAX_DEPTH"
    from parse_object_members_Some [OF a] obtain p1 t1 p2 mv obj' p3 p4 t4 where
      ts: "tok_type token = JSONK_TOKEN_STRING" and
      n1: "jsonk_next_token p = Inr (p1, t1)" and c1: "tok_type t1 = JSONK_TOKEN_COLON" and
      pv: "jsonk_parse_value depth p1 = Some (p2, mv)" and
      ad: "jsonk_object_add_member_tracked obj (token_bytes p token @ [NUL]) (tok_len t1) mv (Some p2)
          = Inr (obj', Some p3)" and
      n4: "jsonk_next_token p3 = Inr (p4, t4)" and
      c: "if tok_type t4 = JSONK_TOKEN_OBJECT_END then p' = p4 \<and> v = JSONK_VALUE_OBJECT obj'
         else tok_type t4 = JSONK_TOKEN_COMMA
              \<and> (\<exists>p5 t5. jsonk_next_token p4 = Inr (p5, t5)
                    \<and> parse_object_members depth p5 t5 obj' = Some (p', v))" by blast
    have mvd: "depth + value_depth mv \<le> JSONK_MAX_DEPTH"
      using 3(1) [OF _ refl n1 refl _] ts c1 pv by simp
    from add_member_tracked_Inr [OF ad] have obj': "obj' = obj @ [(take (tok_len t1) (token_bytes p token @ [NUL]), mv)]"
      by simp
    with m mvd have m': "depth + members_depth obj' \<le> JSONK_MAX_DEPTH" by simp
    show "depth + value_depth v \<le> Suc JSONK_MAX_DEPTH"
    proof (cases "tok_type t4 = JSONK_TOKEN_OBJECT_END")
      case True
      with c m' show ?thesis by simp
    next
      case False
      with c obtain p5 t5 where cm: "tok_type t4 = JSONK_TOKEN_COMMA" and
        n5: "jsonk_next_token p4 = Inr (p5, t5)" and
        rec: "parse_object_members depth p5 t5 obj' = Some (p', v)" by auto
      from 3(2) [OF _ refl n1 refl _ pv refl ad refl refl n4 refl False _ n5 refl] ts c1 cm rec d m'
      show ?thesis by simp
    qed
  qed
next
  case (4 depth p)
  show ?case
  proof (intro allI impI)
    fix p' v assume a: "jsonk_parse_array depth p = Some (p', v)" and d: "depth \<le> JSONK_MAX_DEPTH"
    from jsonk_parse_array_Some [OF a] obtain p1 t1 where
      n1: "jsonk_next_token p = Inr (p1, t1)" and s1: "tok_type t1 = JSONK_TOKEN_ARRAY_START" and
      rec: "parse_array_elements depth p1 [] = Some (p', v)" by blast
    from 4 [OF n1 refl] s1 rec d show "depth + value_depth v \<le> Suc JSONK_MAX_DEPTH" by simp
  qed
next
  case (5 depth p arr)
  show ?case
  proof (intro allI impI)
    fix p' v assume a: "parse_array_elements depth p arr = Some (p', v)"
      and d: "depth \<le> JSONK_MAX_DEPTH" and m: "depth + elements_depth arr \<le> JSONK_MAX_DEPTH"
    define q where "q = jsonk_skip_whitespace p"
    show "depth + value_depth v \<le> Suc JSONK_MAX_DEPTH"
    proof (cases "pos q < length (buffer q) \<and> buffer q ! pos q = CHR '']''")
      case True
      with parse_array_elements_Some [OF a] m show ?thesis by (simp add: q_def Let_def)
    next
      case False
      with parse_array_elements_Some [OF a] obtain p2 ev arr' p3 p4 t4 where
        pv: "jsonk_parse_value depth q = Some (p2, ev)" and
        ad: "jsonk_array_add_element_tracked arr ev (Some p2) = Inr (arr', Some p3)" and
        n4: "jsonk_next_token p3 = Inr (p4, t4)" and
        c: "if tok_type t4 = JSONK_TOKEN_ARRAY_END then p' = p4 \<and> v = JSONK_VALUE_ARRAY arr'
          else tok_type t4 = JSONK_TOKEN_COMMA
               \<and> parse_array_elements depth p4 arr' = Some (p', v)"
        by (auto simp: q_def Let_def)
      have evd: "depth + value_depth ev \<le> JSONK_MAX_DEPTH"
        using 5(1) [OF q_def False] pv by simp
      from add_element_tracked_Inr [OF ad] have "arr' = arr @ [ev]" by simp
      with m evd have m': "depth + elements_depth arr' \<le> JSONK_MAX_DEPTH" by simp
      show ?thesis
      proof (cases "tok_type t4 = JSONK_TOKEN_ARRAY_END")
        case True
        with c m' show ?thesis by simp
      next
        case False
        with c have cm: "tok_type t4 = JSONK_TOKEN_COMMA" and
          rec: "parse_array_elements depth p4 arr' = Some (p', v)" by auto
        from 5(2) [OF q_def \<open>\<not> (pos q < length (buffer q) \<and> buffer q ! pos q = CHR '']'')\<close>
                     pv refl ad refl refl n4 refl False] cm rec d m'
        show ?thesis by simp
      qed
    qed
  qed
qed

text \<open>
  The depth at which a parsing function runs matters only through the limit: a run that
  returns a tree returns the same tree, in the same final state, at every depth at which
  the tree still fits below \<^verbatim>\<open>JSONK_MAX_DEPTH\<close>.
\<close>

lemma value_depth_pos: "0 < value_depth v"
  by (cases v) simp_all

lemma parse_result_extends:
  "\<forall>p' v. jsonk_parse_value depth p = Some (p', v) \<longrightarrow> True"
  "\<forall>p' v. jsonk_parse_object depth p = Some (p', v) \<longrightarrow> True"
  "\<forall>p' v. parse_object_members depth p token obj = Some (p', v) \<longrightarrow>
      (\<exists>ms. v = JSONK_VALUE_OBJECT (obj @ ms))"
  "\<forall>p' v. jsonk_parse_array depth p = Some (p', v) \<longrightarrow> True"
  "\<forall>p' v. parse_array_elements depth p arr = Some (p', v) \<longrightarrow>
      (\<exists>vs. v = JSONK_VALUE_ARRAY (arr @ vs))"
proof (induction depth p and depth p and depth p token obj and depth p and depth p arr
       rule: jsonk_parse_value_jsonk_parse_object_parse_object_members_jsonk_parse_array_parse_array_elements.induct)
  case (1 depth p)
  show ?case by simp
next
  case (2 depth p)
  show ?case by simp
next
  case (3 depth p token obj)
  show ?case
  proof (intro allI impI)
    fix p' v assume a: "parse_object_members depth p token obj = Some (p', v)"
    from parse_object_members_Some [OF a] obtain p1 t1 p2 mv obj' p3 p4 t4 where
      ts: "tok_type token = JSONK_TOKEN_STRING" and
      n1: "jsonk_next_token p = Inr (p1, t1)" and c1: "tok_type t1 = JSONK_TOKEN_COLON" and
      pv: "jsonk_parse_value depth p1 = Some (p2, mv)" and
      ad: "jsonk_object_add_member_tracked obj (token_bytes p token @ [NUL]) (tok_len t1) mv (Some p2)
          = Inr (obj', Some p3)" and
      n4: "jsonk_next_token p3 = Inr (p4, t4)" and
      c: "if tok_type t4 = JSONK_TOKEN_OBJECT_END then p' = p4 \<and> v = JSONK_VALUE_OBJECT obj'
         else tok_type t4 = JSONK_TOKEN_COMMA
              \<and> (\<exists>p5 t5. jsonk_next_token p4 = Inr (p5, t5)
                    \<and> parse_object_members depth p5 t5 obj' = Some (p', v))" by blast
    from add_member_tracked_Inr [OF ad]
    have obj': "obj' = obj @ [(take (tok_len t1) (token_bytes p token @ [NUL]), mv)]" by simp
    show "\<exists>ms. v = JSONK_VALUE_OBJECT (obj @ ms)"
    proof (cases "tok_type t4 = JSONK_TOKEN_OBJECT_END")
      case True
      with c obj' show ?thesis by simp
    next
      case False
      with c obtain p5 t5 where cm: "tok_type t4 = JSONK_TOKEN_COMMA" and
        n5: "jsonk_next_token p4 = Inr (p5, t5)" and
        rec: "parse_object_members depth p5 t5 obj' = Some (p', v)" by auto
      from 3(2) [OF _ refl n1 refl _ pv refl ad refl refl n4 refl False _ n5 refl] ts c1 cm rec
      obtain ms where "v = JSONK_VALUE_OBJECT (obj' @ ms)" by auto
      with obj' show ?thesis by simp
    qed
  qed
next
  case (4 depth p)
  show ?case by simp
next
  case (5 depth p arr)
  show ?case
  proof (intro allI impI)
    fix p' v assume a: "parse_array_elements depth p arr = Some (p', v)"
    define q where "q = jsonk_skip_whitespace p"
    show "\<exists>vs. v = JSONK_VALUE_ARRAY (arr @ vs)"
    proof (cases "pos q < length (buffer q) \<and> buffer q ! pos q = CHR '']''")
      case True
      with parse_array_elements_Some [OF a] show ?thesis by (simp add: q_def Let_def)
    next
      case False
      with parse_array_elements_Some [OF a] obtain p2 ev arr' p3 p4 t4 where
        pv: "jsonk_parse_value depth q = Some (p2, ev)" and
        ad: "jsonk_array_add_element_tracked arr ev (Some p2) = Inr (arr', Some p3)" and
        n4: "jsonk_next_token p3 = Inr (p4, t4)" and
        c: "if tok_type t4 = JSONK_TOKEN_ARRAY_END then p' = p4 \<and> v = JSONK_VALUE_ARRAY arr'
          else tok_type t4 = JSONK_TOKEN_COMMA
               \<and> parse_array_elements depth p4 arr' = Some (p', v)"
        by (auto simp: q_def Let_def)
      from add_element_tracked_Inr [OF ad] have arr': "arr' = arr @ [ev]" by simp
      show ?thesis
      proof (cases "tok_type t4 = JSONK_TOKEN_ARRAY_END")
        case True
        with c arr' show ?thesis by simp
      next
        case ne: False
        with c have cm: "tok_type t4 = JSONK_TOKEN_COMMA" and
          rec: "parse_array_elements depth p4 arr' = Some (p', v)" by auto
        from 5(2) [OF q_def False pv refl ad refl refl n4 refl ne] cm rec
        obtain vs where "v = JSONK_VALUE_ARRAY (arr' @ vs)" by auto
        with arr' show ?thesis by simp
      qed
    qed
  qed
qed

lemma parse_any_depth:
  "\<forall>p' v. jsonk_parse_value depth p = Some (p', v) \<longrightarrow>
      (\<forall>d'. d' + value_depth v \<le> JSONK_MAX_DEPTH \<longrightarrow> jsonk_parse_value d' p = Some (p', v))"
  "\<forall>p' v. jsonk_parse_object depth p = Some (p', v) \<longrightarrow>
      (\<forall>d'. d' + value_depth v \<le> Suc JSONK_MAX_DEPTH \<longrightarrow> jsonk_parse_object d' p = Some (p', v))"
  "\<forall>p' v. parse_object_members depth p token obj = Some (p', v) \<longrightarrow>
      (\<forall>d'. d' + value_depth v \<le> Suc JSONK_MAX_DEPTH \<longrightarrow>
         parse_object_members d' p token obj = Some (p', v))"
  "\<forall>p' v. jsonk_parse_array depth p = Some (p', v) \<longrightarrow>
      (\<forall>d'. d' + value_depth v \<le> Suc JSONK_MAX_DEPTH \<longrightarrow> jsonk_parse_array d' p = Some (p', v))"
  "\<forall>p' v. parse_array_elements depth p arr = Some (p', v) \<longrightarrow>
      (\<forall>d'. d' + value_depth v \<le> Suc JSONK_MAX_DEPTH \<longrightarrow>
         parse_array_elements d' p arr = Some (p', v))"
proof (induction depth p and depth p and depth p token obj and depth p and depth p arr
       rule: jsonk_parse_value_jsonk_parse_object_parse_object_members_jsonk_parse_array_parse_array_elements.induct)
  case (1 depth p)
  show ?case
  proof (intro allI impI)
    fix p' v d' assume a: "jsonk_parse_value depth p = Some (p', v)"
      and b: "d' + value_depth v \<le> JSONK_MAX_DEPTH"
    from jsonk_parse_value_Some [OF a] obtain p1 t where
      d: "depth < JSONK_MAX_DEPTH" and nt: "jsonk_next_token p = Inr (p1, t)" and
      c: "case tok_type t of
        JSONK_TOKEN_OBJECT_START \<Rightarrow>
          jsonk_parse_object (depth + 1) (p1\<lparr>pos := pos p1 - tok_len t\<rparr>) = Some (p', v)
      | JSONK_TOKEN_ARRAY_START \<Rightarrow>
          jsonk_parse_array (depth + 1) (p1\<lparr>pos := pos p1 - tok_len t\<rparr>) = Some (p', v)
      | JSONK_TOKEN_STRING \<Rightarrow>
          jsonk_value_create_string_tracked (token_bytes p1 t) (Some p1) = Some (v, Some p')
      | JSONK_TOKEN_NUMBER \<Rightarrow> p' = p1 \<and> jsonk_value_create_number (token_bytes p1 t) = Some v
      | JSONK_TOKEN_TRUE \<Rightarrow> p' = p1 \<and> v = JSONK_VALUE_BOOLEAN True
      | JSONK_TOKEN_FALSE \<Rightarrow> p' = p1 \<and> v = JSONK_VALUE_BOOLEAN False
      | JSONK_TOKEN_NULL \<Rightarrow> p' = p1 \<and> v = JSONK_VALUE_NULL
      | _ \<Rightarrow> False" by blast
    from b value_depth_pos [of v] have nd: "\<not> JSONK_MAX_DEPTH \<le> d'" by simp
    have ndd: "\<not> JSONK_MAX_DEPTH \<le> depth" using d by simp
    show "jsonk_parse_value d' p = Some (p', v)"
    proof (cases "tok_type t")
      case JSONK_TOKEN_OBJECT_START
      with c have "jsonk_parse_object (depth + 1) (p1\<lparr>pos := pos p1 - tok_len t\<rparr>) = Some (p', v)"
        by simp
      with 1(1) [OF ndd nt refl JSONK_TOKEN_OBJECT_START]
      have "\<forall>d'. d' + value_depth v \<le> Suc JSONK_MAX_DEPTH \<longrightarrow>
              jsonk_parse_object d' (p1\<lparr>pos := pos p1 - tok_len t\<rparr>) = Some (p', v)" by blast
      with b
      have "jsonk_parse_object (d' + 1) (p1\<lparr>pos := pos p1 - tok_len t\<rparr>) = Some (p', v)" by simp
      with nt nd JSONK_TOKEN_OBJECT_START show ?thesis
        by (subst jsonk_parse_value.simps) simp
    next
      case JSONK_TOKEN_ARRAY_START
      with c have "jsonk_parse_array (depth + 1) (p1\<lparr>pos := pos p1 - tok_len t\<rparr>) = Some (p', v)"
        by simp
      with 1(2) [OF ndd nt refl JSONK_TOKEN_ARRAY_START]
      have "\<forall>d'. d' + value_depth v \<le> Suc JSONK_MAX_DEPTH \<longrightarrow>
              jsonk_parse_array d' (p1\<lparr>pos := pos p1 - tok_len t\<rparr>) = Some (p', v)" by blast
      with b
      have "jsonk_parse_array (d' + 1) (p1\<lparr>pos := pos p1 - tok_len t\<rparr>) = Some (p', v)" by simp
      with nt nd JSONK_TOKEN_ARRAY_START show ?thesis
        by (subst jsonk_parse_value.simps) simp
    next
      case JSONK_TOKEN_STRING
      with c nt nd show ?thesis by (subst jsonk_parse_value.simps) simp
    next
      case JSONK_TOKEN_NUMBER
      with c nt nd show ?thesis by (subst jsonk_parse_value.simps) simp
    next
      case JSONK_TOKEN_TRUE
      with c nt nd show ?thesis by (subst jsonk_parse_value.simps) simp
    next
      case JSONK_TOKEN_FALSE
      with c nt nd show ?thesis by (subst jsonk_parse_value.simps) simp
    next
      case JSONK_TOKEN_NULL
      with c nt nd show ?thesis by (subst jsonk_parse_value.simps) simp
    qed (use c in simp_all)
  qed
next
  case (2 depth p)
  show ?case
  proof (intro allI impI)
    fix p' v d' assume a: "jsonk_parse_object depth p = Some (p', v)"
      and b: "d' + value_depth v \<le> Suc JSONK_MAX_DEPTH"
    from jsonk_parse_object_Some [OF a] obtain p1 t1 p2 t2 where
      n1: "jsonk_next_token p = Inr (p1, t1)" and s1: "tok_type t1 = JSONK_TOKEN_OBJECT_START" and
      n2: "jsonk_next_token p1 = Inr (p2, t2)" and
      c: "if tok_type t2 = JSONK_TOKEN_OBJECT_END then p' = p2 \<and> v = JSONK_VALUE_OBJECT []
         else parse_object_members depth p2 t2 [] = Some (p', v)" by blast
    show "jsonk_parse_object d' p = Some (p', v)"
    proof (cases "tok_type t2 = JSONK_TOKEN_OBJECT_END")
      case True
      with c n1 s1 n2 show ?thesis by (subst jsonk_parse_object.simps) simp
    next
      case False
      with c have "parse_object_members depth p2 t2 [] = Some (p', v)" by simp
      with 2 [OF n1 refl _ n2 refl False] s1
      have "\<forall>d'. d' + value_depth v \<le> Suc JSONK_MAX_DEPTH \<longrightarrow>
              parse_object_members d' p2 t2 [] = Some (p', v)" by blast
      with b have "parse_object_members d' p2 t2 [] = Some (p', v)" by simp
      with False n1 s1 n2 show ?thesis by (subst jsonk_parse_object.simps) simp
    qed
  qed
next
  case (3 depth p token obj)
  show ?case
  proof (intro allI impI)
    fix p' v d' assume a: "parse_object_members depth p token obj = Some (p', v)"
      and b: "d' + value_depth v \<le> Suc JSONK_MAX_DEPTH"
    from parse_object_members_Some [OF a] obtain p1 t1 p2 mv obj' p3 p4 t4 where
      ts: "tok_type token = JSONK_TOKEN_STRING" and
      n1: "jsonk_next_token p = Inr (p1, t1)" and c1: "tok_type t1 = JSONK_TOKEN_COLON" and
      pv: "jsonk_parse_value depth p1 = Some (p2, mv)" and
      ad: "jsonk_object_add_member_tracked obj (token_bytes p token @ [NUL]) (tok_len t1) mv (Some p2)
          = Inr (obj', Some p3)" and
      n4: "jsonk_next_token p3 = Inr (p4, t4)" and
      c: "if tok_type t4 = JSONK_TOKEN_OBJECT_END then p' = p4 \<and> v = JSONK_VALUE_OBJECT obj'
         else tok_type t4 = JSONK_TOKEN_COMMA
              \<and> (\<exists>p5 t5. jsonk_next_token p4 = Inr (p5, t5)
                    \<and> parse_object_members depth p5 t5 obj' = Some (p', v))" by blast
    from add_member_tracked_Inr [OF ad]
    have obj': "obj' = obj @ [(take (tok_len t1) (token_bytes p token @ [NUL]), mv)]" by simp
    have "\<exists>ms. v = JSONK_VALUE_OBJECT (obj' @ ms)"
    proof (cases "tok_type t4 = JSONK_TOKEN_OBJECT_END")
      case True
      with c show ?thesis by simp
    next
      case False
      with c obtain p5 t5 where
        "parse_object_members depth p5 t5 obj' = Some (p', v)" by auto
      with parse_result_extends(3) [of depth p5 t5 obj'] show ?thesis by simp
    qed
    then obtain ms where v: "v = JSONK_VALUE_OBJECT (obj' @ ms)" by blast
    with b obj' have bm: "d' + value_depth mv \<le> JSONK_MAX_DEPTH" by simp
    from 3(1) [OF _ refl n1 refl _] ts c1 pv
    have "\<forall>d'. d' + value_depth mv \<le> JSONK_MAX_DEPTH \<longrightarrow> jsonk_parse_value d' p1 = Some (p2, mv)"
      by blast
    with bm have pv': "jsonk_parse_value d' p1 = Some (p2, mv)" by simp
    show "parse_object_members d' p token obj = Some (p', v)"
    proof (cases "tok_type t4 = JSONK_TOKEN_OBJECT_END")
      case True
      with c ts n1 c1 pv' ad n4 show ?thesis
        by (subst parse_object_members.simps) (simp add: Let_def)
    next
      case False
      with c obtain p5 t5 where cm: "tok_type t4 = JSONK_TOKEN_COMMA" and
        n5: "jsonk_next_token p4 = Inr (p5, t5)" and
        rec: "parse_object_members depth p5 t5 obj' = Some (p', v)" by auto
      from 3(2) [OF _ refl n1 refl _ pv refl ad refl refl n4 refl False _ n5 refl] ts c1 cm rec
      have "\<forall>d'. d' + value_depth v \<le> Suc JSONK_MAX_DEPTH \<longrightarrow>
              parse_object_members d' p5 t5 obj' = Some (p', v)" by blast
      with b have "parse_object_members d' p5 t5 obj' = Some (p', v)" by simp
      with False cm ts n1 c1 pv' ad n4 n5 show ?thesis
        by (subst parse_object_members.simps) (simp add: Let_def)
    qed
  qed
next
  case (4 depth p)
  show ?case
  proof (intro allI impI)
    fix p' v d' assume a: "jsonk_parse_array depth p = Some (p', v)"
      and b: "d' + value_depth v \<le> Suc JSONK_MAX_DEPTH"
    from jsonk_parse_array_Some [OF a] obtain p1 t1 where
      n1: "jsonk_next_token p = Inr (p1, t1)" and s1: "tok_type t1 = JSONK_TOKEN_ARRAY_START" and
      rec: "parse_array_elements depth p1 [] = Some (p', v)" by blast
    from 4 [OF n1 refl] s1 rec
    have "\<forall>d'. d' + value_depth v \<le> Suc JSONK_MAX_DEPTH \<longrightarrow>
            parse_array_elements d' p1 [] = Some (p', v)" by blast
    with b have "parse_array_elements d' p1 [] = Some (p', v)" by simp
    with n1 s1 show "jsonk_parse_array d' p = Some (p', v)"
      by (subst jsonk_parse_array.simps) simp
  qed
next
  case (5 depth p arr)
  show ?case
  proof (intro allI impI)
    fix p' v d' assume a: "parse_array_elements depth p arr = Some (p', v)"
      and b: "d' + value_depth v \<le> Suc JSONK_MAX_DEPTH"
    define q where "q = jsonk_skip_whitespace p"
    show "parse_array_elements d' p arr = Some (p', v)"
    proof (cases "pos q < length (buffer q) \<and> buffer q ! pos q = CHR '']''")
      case True
      with parse_array_elements_Some [OF a]
      have "p' = q\<lparr>pos := pos q + 1\<rparr>" "v = JSONK_VALUE_ARRAY arr" by (auto simp: q_def Let_def)
      with True show ?thesis
        by (subst parse_array_elements.simps) (simp add: Let_def q_def)
    next
      case False
      with parse_array_elements_Some [OF a] obtain p2 ev arr' p3 p4 t4 where
        pv: "jsonk_parse_value depth q = Some (p2, ev)" and
        ad: "jsonk_array_add_element_tracked arr ev (Some p2) = Inr (arr', Some p3)" and
        n4: "jsonk_next_token p3 = Inr (p4, t4)" and
        c: "if tok_type t4 = JSONK_TOKEN_ARRAY_END then p' = p4 \<and> v = JSONK_VALUE_ARRAY arr'
          else tok_type t4 = JSONK_TOKEN_COMMA
               \<and> parse_array_elements depth p4 arr' = Some (p', v)"
        by (auto simp: q_def Let_def)
      from add_element_tracked_Inr [OF ad] have arr': "arr' = arr @ [ev]" by simp
      have "\<exists>vs. v = JSONK_VALUE_ARRAY (arr' @ vs)"
      proof (cases "tok_type t4 = JSONK_TOKEN_ARRAY_END")
        case True
        with c show ?thesis by simp
      next
        case ne: False
        with c have "parse_array_elements depth p4 arr' = Some (p', v)" by auto
        with parse_result_extends(5) [of depth p4 arr'] show ?thesis by simp
      qed
      then obtain vs where v: "v = JSONK_VALUE_ARRAY (arr' @ vs)" by blast
      with b arr' have be: "d' + value_depth ev \<le> JSONK_MAX_DEPTH" by simp
      from 5(1) [OF q_def False] pv
      have "\<forall>d'. d' + value_depth ev \<le> JSONK_MAX_DEPTH \<longrightarrow> jsonk_parse_value d' q = Some (p2, ev)"
        by blast
      with be have pv': "jsonk_parse_value d' q = Some (p2, ev)" by simp
      from False have nq: "\<not> (pos (jsonk_skip_whitespace p) < length (buffer (jsonk_skip_whitespace p))
            \<and> buffer (jsonk_skip_whitespace p) ! pos (jsonk_skip_whitespace p) = CHR '']'')"
        by (simp add: q_def)
      show ?thesis
      proof (cases "tok_type t4 = JSONK_TOKEN_ARRAY_END")
        case True
        with c nq pv' ad n4 show ?thesis
          by (subst parse_array_elements.simps) (auto simp add: Let_def q_def [symmetric])
      next
        case ne: False
        with c have cm: "tok_type t4 = JSONK_TOKEN_COMMA" and
          rec: "parse_array_elements depth p4 arr' = Some (p', v)" by auto
        from 5(2) [OF q_def False pv refl ad refl refl n4 refl ne] cm rec
        have "\<forall>d'. d' + value_depth v \<le> Suc JSONK_MAX_DEPTH \<longrightarrow>
                parse_array_elements d' p4 arr' = Some (p', v)" by blast
        with b have "parse_array_elements d' p4 arr' = Some (p', v)" by simp
        with ne cm nq pv' ad n4 show ?thesis
          by (subst parse_array_elements.simps) (auto simp add: Let_def q_def [symmetric])
      qed
    qed
  qed
qed

text \<open>
  C7. \<^verbatim>\<open>jsonk_parse_value\<close> refuses to run at depth \<^verbatim>\<open>JSONK_MAX_DEPTH\<close>, and every
  call it makes for a child runs one level deeper; so a tree that \<^verbatim>\<open>jsonk_parse\<close>
  returns is at most 32 levels deep. Conversely the depth check rejects nothing that fits:
  an input that is parsed to a tree \<open>w\<close> at some depth \<open>d\<close> is parsed to \<open>w\<close> at every
  depth \<open>d'\<close> with \<open>d' + value_depth w \<le> 32\<close>, up to equality in this bound. Thirty-two
  nested arrays and thirty-two nested objects are parsed, thirty-three are not.
\<close>

theorem parse_depth_limit:
  \<open>(JSONK_MAX_DEPTH \<le> depth \<longrightarrow> jsonk_parse_value depth p = None)
   \<and> (jsonk_parse s = Some v \<longrightarrow> value_depth v \<le> JSONK_MAX_DEPTH)
   \<and> (jsonk_parse_value d q = Some (q', w) \<and> d' + value_depth w \<le> JSONK_MAX_DEPTH
        \<longrightarrow> jsonk_parse_value d' q = Some (q', w))
   \<and> map_option value_depth (jsonk_parse ''[[[[[[[[[[[[[[[[[[[[[[[[[[[[[[[[]]]]]]]]]]]]]]]]]]]]]]]]]]]]]]]]'') = Some 32
   \<and> jsonk_parse ''[[[[[[[[[[[[[[[[[[[[[[[[[[[[[[[[[]]]]]]]]]]]]]]]]]]]]]]]]]]]]]]]]]'' = None
   \<and> map_option value_depth (jsonk_parse ''{"a":{"a":{"a":{"a":{"a":{"a":{"a":{"a":{"a":{"a":{"a":{"a":{"a":{"a":{"a":{"a":{"a":{"a":{"a":{"a":{"a":{"a":{"a":{"a":{"a":{"a":{"a":{"a":{"a":{"a":{"a":{}}}}}}}}}}}}}}}}}}}}}}}}}}}}}}}}'') = Some 32
   \<and> jsonk_parse ''{"a":{"a":{"a":{"a":{"a":{"a":{"a":{"a":{"a":{"a":{"a":{"a":{"a":{"a":{"a":{"a":{"a":{"a":{"a":{"a":{"a":{"a":{"a":{"a":{"a":{"a":{"a":{"a":{"a":{"a":{"a":{"a":{}}}}}}}}}}}}}}}}}}}}}}}}}}}}}}}}}'' = None\<close>
proof (intro conjI impI)
  assume "JSONK_MAX_DEPTH \<le> depth"
  then show "jsonk_parse_value depth p = None"
    by (subst jsonk_parse_value.simps) simp
next
  assume "jsonk_parse s = Some v"
  then obtain p' where "jsonk_parse_value 0 (jsonk_parser_init s) = Some (p', v)"
    by (auto simp: jsonk_parse_def split: if_splits)
  with parse_depth_bound(1) [of 0 "jsonk_parser_init s"]
  show "value_depth v \<le> JSONK_MAX_DEPTH" by simp
next
  assume "jsonk_parse_value d q = Some (q', w) \<and> d' + value_depth w \<le> JSONK_MAX_DEPTH"
  with parse_any_depth(1) [of d q] show "jsonk_parse_value d' q = Some (q', w)" by blast
next
  show \<open>map_option value_depth (jsonk_parse ''[[[[[[[[[[[[[[[[[[[[[[[[[[[[[[[[]]]]]]]]]]]]]]]]]]]]]]]]]]]]]]]]'') = Some 32\<close>
    by (simp add: jsonk_eval)
next
  show \<open>jsonk_parse ''[[[[[[[[[[[[[[[[[[[[[[[[[[[[[[[[[]]]]]]]]]]]]]]]]]]]]]]]]]]]]]]]]]'' = None\<close>
    by (simp add: jsonk_eval)
next
  show \<open>map_option value_depth (jsonk_parse ''{"a":{"a":{"a":{"a":{"a":{"a":{"a":{"a":{"a":{"a":{"a":{"a":{"a":{"a":{"a":{"a":{"a":{"a":{"a":{"a":{"a":{"a":{"a":{"a":{"a":{"a":{"a":{"a":{"a":{"a":{"a":{}}}}}}}}}}}}}}}}}}}}}}}}}}}}}}}}'') = Some 32\<close>
    by (simp add: jsonk_eval)
next
  show \<open>jsonk_parse ''{"a":{"a":{"a":{"a":{"a":{"a":{"a":{"a":{"a":{"a":{"a":{"a":{"a":{"a":{"a":{"a":{"a":{"a":{"a":{"a":{"a":{"a":{"a":{"a":{"a":{"a":{"a":{"a":{"a":{"a":{"a":{"a":{}}}}}}}}}}}}}}}}}}}}}}}}}}}}}}}}}'' = None\<close>
    by (simp add: jsonk_eval)
qed

theorem parse_depth_limit_witness:
  \<open>JSONK_MAX_DEPTH \<le> 32 \<and> jsonk_parse_value 32 (jsonk_parser_init ''1'') = None
   \<and> jsonk_parse ''[[1]]''
        = Some (JSONK_VALUE_ARRAY [JSONK_VALUE_ARRAY [JSONK_VALUE_NUMBER 1 0 False True]])
   \<and> value_depth (JSONK_VALUE_ARRAY [JSONK_VALUE_ARRAY [JSONK_VALUE_NUMBER 1 0 False True]])
        \<le> JSONK_MAX_DEPTH
   \<and> jsonk_parse_value 0 (jsonk_parser_init ''{"a":[1]}'')
        = Some (\<lparr>buffer = ''{"a":[1]}'', pos = 9, total_memory_used = 26, string_count = 0\<rparr>,
                JSONK_VALUE_OBJECT
                  [(''a'', JSONK_VALUE_ARRAY [JSONK_VALUE_NUMBER 1 0 False True])])
   \<and> 29 + value_depth (JSONK_VALUE_OBJECT
                  [(''a'', JSONK_VALUE_ARRAY [JSONK_VALUE_NUMBER 1 0 False True])])
        \<le> JSONK_MAX_DEPTH
   \<and> jsonk_parse_value 29 (jsonk_parser_init ''{"a":[1]}'')
        = Some (\<lparr>buffer = ''{"a":[1]}'', pos = 9, total_memory_used = 26, string_count = 0\<rparr>,
                JSONK_VALUE_OBJECT
                  [(''a'', JSONK_VALUE_ARRAY [JSONK_VALUE_NUMBER 1 0 False True])])\<close>
proof -
  have a: "JSONK_MAX_DEPTH \<le> 32" by (simp add: JSONK_MAX_DEPTH_def)
  have b: \<open>jsonk_parse ''[[1]]''
        = Some (JSONK_VALUE_ARRAY [JSONK_VALUE_ARRAY [JSONK_VALUE_NUMBER 1 0 False True]])\<close>
    by (simp add: jsonk_eval)
  have c: \<open>jsonk_parse_value 0 (jsonk_parser_init ''{"a":[1]}'')
        = Some (\<lparr>buffer = ''{"a":[1]}'', pos = 9, total_memory_used = 26, string_count = 0\<rparr>,
                JSONK_VALUE_OBJECT
                  [(''a'', JSONK_VALUE_ARRAY [JSONK_VALUE_NUMBER 1 0 False True])])\<close>
    by (simp add: jsonk_eval)
  have d: "29 + value_depth (JSONK_VALUE_OBJECT
                  [(''a'', JSONK_VALUE_ARRAY [JSONK_VALUE_NUMBER 1 0 False True])])
        \<le> JSONK_MAX_DEPTH" by (simp add: JSONK_MAX_DEPTH_def)
  from a b c d parse_depth_limit [of 32 "jsonk_parser_init ''1''" "''[[1]]''"
      "JSONK_VALUE_ARRAY [JSONK_VALUE_ARRAY [JSONK_VALUE_NUMBER 1 0 False True]]"
      0 \<open>jsonk_parser_init ''{"a":[1]}''\<close>
      \<open>\<lparr>buffer = ''{"a":[1]}'', pos = 9, total_memory_used = 26, string_count = 0\<rparr>\<close>
      "JSONK_VALUE_OBJECT [(''a'', JSONK_VALUE_ARRAY [JSONK_VALUE_NUMBER 1 0 False True])]" 29]
  show ?thesis by blast
qed

subsection \<open>Deep copy of plain trees\<close>

lemma unescape_plain: "BACKSLASH \<notin> set s \<Longrightarrow> unescape s = Some s"
proof (induction s rule: induct_list012)
  case 1
  then show ?case by simp
next
  case (2 c)
  then show ?case by simp
next
  case (3 c e cs)
  then have "c \<noteq> BACKSLASH" and "unescape (e # cs) = Some (e # cs)" by auto
  then show ?case by simp
qed

lemma create_string_plain:
  "BACKSLASH \<notin> set s \<Longrightarrow> length s \<le> JSONK_MAX_STRING_LENGTH \<Longrightarrow>
   jsonk_value_create_string_tracked s None = Some (JSONK_VALUE_STRING s, None)"
  by (simp add: jsonk_value_create_string_tracked_def jsonk_value_create_tracked_def
        jsonk_tracked_alloc_def unescape_plain)

lemma add_member_untracked_plain:
  "length copy_m < JSONK_MAX_OBJECT_MEMBERS \<Longrightarrow> length key \<le> JSONK_MAX_KEY_LENGTH \<Longrightarrow>
   jsonk_object_add_member_tracked copy_m key (length key) v None = Inr (copy_m @ [(key, v)], None)"
  by (simp add: jsonk_object_add_member_tracked_def jsonk_tracked_alloc_def)

lemma add_element_untracked_plain:
  "length copy_e < JSONK_MAX_ARRAY_SIZE \<Longrightarrow>
   jsonk_array_add_element_tracked copy_e v None = Inr (copy_e @ [v], None)"
  by (simp add: jsonk_array_add_element_tracked_def)

lemma deep_copy_plain_aux:
  "plain_value v \<longrightarrow> d + value_depth v \<le> Suc JSONK_MAX_DEPTH \<longrightarrow> jsonk_value_deep_copy v d = Some v"
  "plain_members ms \<longrightarrow> d + members_depth ms \<le> JSONK_MAX_DEPTH \<longrightarrow>
     length copy_m + length ms \<le> JSONK_MAX_OBJECT_MEMBERS \<longrightarrow>
     deep_copy_members ms d copy_m = copy_m @ ms"
  "plain_elements vs \<longrightarrow> d + elements_depth vs \<le> JSONK_MAX_DEPTH \<longrightarrow>
     length copy_e + length vs \<le> JSONK_MAX_ARRAY_SIZE \<longrightarrow>
     deep_copy_elements vs d copy_e = copy_e @ vs"
proof (induction v d and ms d copy_m and vs d copy_e
       rule: jsonk_value_deep_copy_deep_copy_members_deep_copy_elements.induct)
  case (1 current_depth)
  then show ?case by simp
next
  case (2 b current_depth)
  then show ?case by simp
next
  case (3 i f neg is_int current_depth)
  then show ?case by simp
next
  case (4 data current_depth)
  then show ?case by (simp add: create_string_plain)
next
  case (5 members current_depth)
  then show ?case by simp
next
  case (6 elements current_depth)
  then show ?case by simp
next
  case (7 current_depth copy)
  then show ?case by simp
next
  case (8 key v ms current_depth copy)
  show ?case
  proof (intro impI)
    assume pl: "plain_members ((key, v) # ms)"
      and dp: "current_depth + members_depth ((key, v) # ms) \<le> JSONK_MAX_DEPTH"
      and ln: "length copy + length ((key, v) # ms) \<le> JSONK_MAX_OBJECT_MEMBERS"
    from pl dp 8(1) have c: "jsonk_value_deep_copy v (current_depth + 1) = Some v" by simp
    from pl ln have a: "jsonk_object_add_member_tracked copy key (length key) v None
        = Inr (copy @ [(key, v)], None)"
      by (intro add_member_untracked_plain) auto
    from 8(4) [OF c a refl] pl dp ln
    have "deep_copy_members ms current_depth (copy @ [(key, v)]) = (copy @ [(key, v)]) @ ms"
      by simp
    with c a show "deep_copy_members ((key, v) # ms) current_depth copy = copy @ (key, v) # ms"
      by simp
  qed
next
  case (9 current_depth copy)
  then show ?case by simp
next
  case (10 v vs current_depth copy)
  show ?case
  proof (intro impI)
    assume pl: "plain_elements (v # vs)"
      and dp: "current_depth + elements_depth (v # vs) \<le> JSONK_MAX_DEPTH"
      and ln: "length copy + length (v # vs) \<le> JSONK_MAX_ARRAY_SIZE"
    from pl dp 10(1) have c: "jsonk_value_deep_copy v (current_depth + 1) = Some v" by simp
    from ln have a: "jsonk_array_add_element_tracked copy v None = Inr (copy @ [v], None)"
      by (intro add_element_untracked_plain) auto
    from 10(4) [OF c a refl] pl dp ln
    have "deep_copy_elements vs current_depth (copy @ [v]) = (copy @ [v]) @ vs"
      by simp
    with c a show "deep_copy_elements (v # vs) current_depth copy = copy @ v # vs"
      by simp
  qed
qed

lemma deep_copy_plain:
  "plain_value v \<Longrightarrow> d + value_depth v \<le> Suc JSONK_MAX_DEPTH \<Longrightarrow> jsonk_value_deep_copy v d = Some v"
  using deep_copy_plain_aux(1) by blast


lemma find_member_Some:
  "jsonk_object_find_member obj key (length key) = Some i \<Longrightarrow>
     i < length obj \<and> fst (obj ! i) = key \<and> (\<forall>j<i. fst (obj ! j) \<noteq> key)"
proof (induction obj arbitrary: i)
  case Nil
  then show ?case by simp
next
  case (Cons m obj)
  obtain k v where m: "m = (k, v)" by (cases m)
  show ?case
  proof (cases "k = key")
    case True
    with Cons.prems m show ?thesis by simp
  next
    case False
    with Cons.prems m obtain i' where i: "i = Suc i'"
      and f: "jsonk_object_find_member obj key (length key) = Some i'" by auto
    from Cons.IH [OF f] False m i show ?thesis
      by (auto simp: nth_Cons less_Suc_eq_0_disj split: nat.splits)
  qed
qed

subsection \<open>One member of the patch\<close>

text \<open>
  C1, as the code has it. Let \<open>v\<close> be a plain patch value of depth at most 32 under the key
  \<open>key\<close>, so that its deep copy is \<open>v\<close> again. The member is looked up in the target
  with \<^verbatim>\<open>jsonk_object_find_member\<close> (lemmas \<open>find_member_None_iff\<close> and
  \<open>find_member_Some\<close>: the result is the first member with this key, if there is one).
  \<^item> \<open>v\<close> empty: the member found is removed and \<^verbatim>\<open>changed\<close> is set; with no such
    member nothing changes.
  \<^item> \<open>v\<close> not empty, key absent: \<open>(key, v)\<close> is appended and \<^verbatim>\<open>changed\<close> is set,
    provided the target has fewer than \<^verbatim>\<open>JSONK_MAX_OBJECT_MEMBERS\<close> members and the key is
    at most \<^verbatim>\<open>JSONK_MAX_KEY_LENGTH\<close> bytes long; otherwise the merge stops with
    \<^verbatim>\<open>-ENOSPC\<close> or \<^verbatim>\<open>-EINVAL\<close>.
  \<^item> both values are objects: the merge recurses into them; its error is passed on, its
    \<^verbatim>\<open>sub_changed\<close> is or-ed to \<^verbatim>\<open>changed\<close>.
  \<^item> otherwise the value of the member found is replaced by \<open>v\<close> and \<^verbatim>\<open>changed\<close> is set.
  In each case the loop goes on with the rest of the patch.
\<close>

theorem merge_member_cases:
  assumes "plain_value v" and "value_depth v \<le> JSONK_MAX_DEPTH"
  shows "merge_members target ((key, v) # rest) changed =
     (case jsonk_object_find_member target key (length key) of
        None \<Rightarrow>
          if is_empty_value v then merge_members target rest changed
          else if length target \<ge> JSONK_MAX_OBJECT_MEMBERS then Inl ENOSPC
          else if length key > JSONK_MAX_KEY_LENGTH then Inl EINVAL
          else merge_members (target @ [(key, v)]) rest True
      | Some i \<Rightarrow>
          if is_empty_value v
          then merge_members (take i target @ drop (Suc i) target) rest True
          else
            (case (v, snd (target ! i)) of
               (JSONK_VALUE_OBJECT patch_members, JSONK_VALUE_OBJECT target_members) \<Rightarrow>
                 (case merge_members target_members patch_members False of
                    Inl e \<Rightarrow> Inl e
                  | Inr (target_members', sub_changed) \<Rightarrow>
                      merge_members (target[i := (key, JSONK_VALUE_OBJECT target_members')])
                        rest (sub_changed \<or> changed))
             | _ \<Rightarrow> merge_members (target[i := (key, v)]) rest True))"
proof -
  from assms have dc: "jsonk_value_deep_copy v 1 = Some v"
    by (intro deep_copy_plain) auto
  show ?thesis
  proof (cases "jsonk_object_find_member target key (length key)")
    case None
    with dc show ?thesis
      by (simp add: jsonk_object_add_member_def jsonk_object_add_member_tracked_def
            jsonk_tracked_alloc_def)
  next
    case (Some i)
    from find_member_Some [OF Some] have k: "fst (target ! i) = key" by simp
    show ?thesis
    proof (cases "is_empty_value v")
      case True
      with Some show ?thesis by (simp add: jsonk_object_remove_member_def)
    next
      case False
      note ne = this
      show ?thesis
      proof (cases "\<exists>pm tm. v = JSONK_VALUE_OBJECT pm \<and> snd (target ! i) = JSONK_VALUE_OBJECT tm")
        case True
        then obtain pm tm where "v = JSONK_VALUE_OBJECT pm" "snd (target ! i) = JSONK_VALUE_OBJECT tm"
          by blast
        with Some ne k show ?thesis
          by (simp split: sum.splits prod.splits)
      next
        case False
        then have "(case (v, snd (target ! i)) of
               (JSONK_VALUE_OBJECT patch_members, JSONK_VALUE_OBJECT target_members) \<Rightarrow>
                 (case merge_members target_members patch_members False of
                    Inl e \<Rightarrow> Inl e
                  | Inr (target_members', sub_changed) \<Rightarrow>
                      merge_members (target[i := (key, JSONK_VALUE_OBJECT target_members')])
                        rest (sub_changed \<or> changed))
             | _ \<Rightarrow> merge_members (target[i := (key, v)]) rest True)
             = merge_members (target[i := (key, v)]) rest True"
          by (cases v; cases "snd (target ! i)") simp_all
        moreover from False Some ne k dc
        have "merge_members target ((key, v) # rest) changed
               = merge_members (target[i := (key, v)]) rest True"
          by (cases v; cases "snd (target ! i)") (simp_all add: replace_member_value_def)
        ultimately show ?thesis using Some ne by simp
      qed
    qed
  qed
qed

theorem merge_member_cases_witness:
  \<open>plain_value (JSONK_VALUE_NUMBER 2 0 False True)
   \<and> value_depth (JSONK_VALUE_NUMBER 2 0 False True) \<le> JSONK_MAX_DEPTH
   \<and> merge_members [(''a'', JSONK_VALUE_NUMBER 1 0 False True)]
         [(''b'', JSONK_VALUE_NUMBER 2 0 False True)] False
       = Inr ([(''a'', JSONK_VALUE_NUMBER 1 0 False True),
               (''b'', JSONK_VALUE_NUMBER 2 0 False True)], True)\<close>
proof -
  have a: "plain_value (JSONK_VALUE_NUMBER 2 0 False True)" by simp
  have b: "value_depth (JSONK_VALUE_NUMBER 2 0 False True) \<le> JSONK_MAX_DEPTH"
    by (simp add: JSONK_MAX_DEPTH_def)
  from merge_member_cases [OF a b, of "[(''a'', JSONK_VALUE_NUMBER 1 0 False True)]" "''b''" "[]" False]
    a b
  show ?thesis
    by (simp add: JSONK_MAX_OBJECT_MEMBERS_def JSONK_MAX_KEY_LENGTH_def)
qed

text \<open>
  A target that already holds 1000 members, none of them with the key \<^verbatim>\<open>b\<close>, and the
  patch member \<^verbatim>\<open>"b":true\<close>: nothing is inserted, the merge fails with \<^verbatim>\<open>-ENOSPC\<close>.
\<close>

lemma find_member_replicate_other:
  "k \<noteq> take n key \<Longrightarrow> jsonk_object_find_member (replicate m (k, v)) key n = None"
  by (induction m) auto

theorem merge_into_full_object_fails:
  "jsonk_merge_objects (replicate 1000 (''a'', JSONK_VALUE_NULL))
      [(''b'', JSONK_VALUE_BOOLEAN True)] = Inl ENOSPC"
  by (simp add: jsonk_merge_objects_def find_member_replicate_other JSONK_MAX_DEPTH_def
        jsonk_object_add_member_def jsonk_object_add_member_tracked_def
        JSONK_MAX_OBJECT_MEMBERS_def)

subsection \<open>The lexer on a longer buffer\<close>

text \<open>
  Each scanning function is followed on the buffer \<open>buffer p @ t\<close>: a run that stops
  inside the old buffer, or at its end before a byte that the scan does not accept, is the
  same run on the longer buffer.
\<close>

lemma ext_simps [simp]:
  "pos (ext p t) = pos p" "buffer (ext p t) = buffer p @ t"
  "total_memory_used (ext p t) = total_memory_used p" "string_count (ext p t) = string_count p"
  "ext (p\<lparr>pos := n\<rparr>) t = (ext p t)\<lparr>pos := n\<rparr>"
  by (simp_all add: ext_def)

lemma skip_while_ge: "i \<le> skip_while P buf i"
proof (induction P buf i rule: skip_while.induct)
  case (1 P buf i)
  show ?case
    by (subst skip_while.simps) (use 1 in \<open>auto simp: Suc_leD\<close>)
qed

lemma skip_while_le: "i \<le> length buf \<Longrightarrow> skip_while P buf i \<le> length buf"
proof (induction P buf i rule: skip_while.induct)
  case (1 P buf i)
  show ?case
    by (subst skip_while.simps) (use 1 in auto)
qed

lemma skip_while_stop:
  "skip_while P buf i < length buf \<Longrightarrow> \<not> P (buf ! skip_while P buf i)"
proof (induction P buf i rule: skip_while.induct)
  case (1 P buf i)
  from 1(2) show ?case
    by (subst skip_while.simps, subst (asm) skip_while.simps)
       (use 1(1) in \<open>auto split: if_splits\<close>)
qed

lemma skip_while_ext:
  "i \<le> length s \<Longrightarrow> skip_while P s i < length s \<or> t = [] \<or> \<not> P (hd t) \<Longrightarrow>
   skip_while P (s @ t) i = skip_while P s i"
proof (induction P s i rule: skip_while.induct)
  case (1 P s i)
  show ?case
  proof (cases "i < length s \<and> P (s ! i)")
    case True
    then have a: "skip_while P s i = skip_while P s (Suc i)"
      by (subst skip_while.simps) simp
    from True have b: "skip_while P (s @ t) i = skip_while P (s @ t) (Suc i)"
      by (subst skip_while.simps) (simp add: nth_append)
    from 1(1) [OF True] True 1(3) a have "skip_while P (s @ t) (Suc i) = skip_while P s (Suc i)"
      by simp
    with a b show ?thesis by simp
  next
    case False
    then have a: "skip_while P s i = i"
      by (subst skip_while.simps) auto
    show ?thesis
    proof (cases "i < length s")
      case True
      with False a show ?thesis
        by (subst skip_while.simps) (simp add: nth_append)
    next
      case False
      with 1(2) have i: "i = length s" by simp
      with 1(3) a have "t = [] \<or> \<not> P (hd t)" by simp
      with i a show ?thesis
        by (subst skip_while.simps) (auto simp: nth_append hd_conv_nth)
    qed
  qed
qed


lemma parse_string_loop_unfold:
  "i < length buf \<Longrightarrow> parse_string_loop buf i =
     (if buf ! i = DQUOTE then Some i
      else if buf ! i = BACKSLASH then
        (if i + 1 \<ge> length buf then None
         else if is_simple_escape (buf ! (i + 1)) then parse_string_loop buf (i + 2)
         else if buf ! (i + 1) = CHR ''u'' then
           (if i + 6 \<le> length buf \<and> list_all is_hex_digit (take 4 (drop (i + 2) buf))
            then parse_string_loop buf (i + 6) else None)
         else None)
      else if (of_char (buf ! i) :: nat) < 32 then None
      else parse_string_loop buf (i + 1))"
  by (subst parse_string_loop.simps) (simp add: Let_def)

lemma parse_string_loop_end: "\<not> i < length buf \<Longrightarrow> parse_string_loop buf i = None"
  by (subst parse_string_loop.simps) simp


lemma parse_string_loop_Some:
  assumes "parse_string_loop buf i = Some c"
  shows "i < length buf \<and>
    ((buf ! i = DQUOTE \<and> c = i)
     \<or> (buf ! i \<noteq> DQUOTE \<and> buf ! i = BACKSLASH \<and> i + 1 < length buf
         \<and> is_simple_escape (buf ! (i + 1)) \<and> parse_string_loop buf (i + 2) = Some c)
     \<or> (buf ! i \<noteq> DQUOTE \<and> buf ! i = BACKSLASH \<and> i + 1 < length buf
         \<and> \<not> is_simple_escape (buf ! (i + 1)) \<and> buf ! (i + 1) = CHR ''u''
         \<and> i + 6 \<le> length buf \<and> list_all is_hex_digit (take 4 (drop (i + 2) buf))
         \<and> parse_string_loop buf (i + 6) = Some c)
     \<or> (buf ! i \<noteq> DQUOTE \<and> buf ! i \<noteq> BACKSLASH \<and> \<not> (of_char (buf ! i) :: nat) < 32
         \<and> parse_string_loop buf (i + 1) = Some c))"
proof -
  have il: "i < length buf"
    using assms parse_string_loop_end [of i buf] by (cases "i < length buf") auto
  note u = parse_string_loop_unfold [OF il]
  show ?thesis
  proof (cases "buf ! i = DQUOTE")
    case True
    with assms il u show ?thesis by simp
  next
    case nq: False
    show ?thesis
    proof (cases "buf ! i = BACKSLASH")
      case False
      with nq assms il u show ?thesis by (simp split: if_splits)
    next
      case True
      with nq assms il u have i1: "i + 1 < length buf" by (simp split: if_splits)
      show ?thesis
      proof (cases "is_simple_escape (buf ! (i + 1))")
        case se: True
        with nq True assms il i1 u show ?thesis by simp
      next
        case se: False
        show ?thesis
        proof (cases "buf ! (i + 1) = CHR ''u''")
          case True
          with nq \<open>buf ! i = BACKSLASH\<close> se assms il i1 u show ?thesis
            by (simp split: if_splits)
        next
          case False
          with nq \<open>buf ! i = BACKSLASH\<close> se assms il i1 u show ?thesis by simp
        qed
      qed
    qed
  qed
qed

lemma parse_string_loop_bound:
  "parse_string_loop buf i = Some c \<Longrightarrow> i \<le> c \<and> c < length buf"
proof (induction "length buf - i" arbitrary: i rule: less_induct)
  case less
  have IH: "\<And>j. i < j \<Longrightarrow> parse_string_loop buf j = Some c \<Longrightarrow> j \<le> c \<and> c < length buf"
  proof -
    fix j assume "i < j" and r: "parse_string_loop buf j = Some c"
    then have "j < length buf" using parse_string_loop_end [of j buf] by (cases "j < length buf") auto
    with \<open>i < j\<close> have "length buf - j < length buf - i" by simp
    from less.hyps [OF this r] show "j \<le> c \<and> c < length buf" .
  qed
  from parse_string_loop_Some [OF less.prems] IH [of "i + 1"] IH [of "i + 2"] IH [of "i + 6"]
  show ?case by auto
qed

lemma parse_string_loop_ext:
  "parse_string_loop s i = Some c \<Longrightarrow> parse_string_loop (s @ t) i = Some c"
proof (induction "length s - i" arbitrary: i rule: less_induct)
  case less
  have IH: "\<And>j. i < j \<Longrightarrow> parse_string_loop s j = Some c \<Longrightarrow> parse_string_loop (s @ t) j = Some c"
  proof -
    fix j assume "i < j" and r: "parse_string_loop s j = Some c"
    then have "j < length s" using parse_string_loop_end [of j s] by (cases "j < length s") auto
    with \<open>i < j\<close> have "length s - j < length s - i" by simp
    from less.hyps [OF this r] show "parse_string_loop (s @ t) j = Some c" .
  qed
  from parse_string_loop_Some [OF less.prems] have il: "i < length s" by simp
  then have il': "i < length (s @ t)" by simp
  note u = parse_string_loop_unfold [OF il']
  from parse_string_loop_Some [OF less.prems]
  consider (q) "s ! i = DQUOTE" "c = i"
    | (se) "s ! i \<noteq> DQUOTE" "s ! i = BACKSLASH" "i + 1 < length s"
         "is_simple_escape (s ! (i + 1))" "parse_string_loop s (i + 2) = Some c"
    | (un) "s ! i \<noteq> DQUOTE" "s ! i = BACKSLASH" "i + 1 < length s"
         "\<not> is_simple_escape (s ! (i + 1))" "s ! (i + 1) = CHR ''u''"
         "i + 6 \<le> length s" "list_all is_hex_digit (take 4 (drop (i + 2) s))"
         "parse_string_loop s (i + 6) = Some c"
    | (re) "s ! i \<noteq> DQUOTE" "s ! i \<noteq> BACKSLASH" "\<not> (of_char (s ! i) :: nat) < 32"
         "parse_string_loop s (i + 1) = Some c"
    by blast
  then show ?case
  proof cases
    case q
    with il u show ?thesis by (simp add: nth_append)
  next
    case se
    with il u IH [of "i + 2"] show ?thesis by (simp add: nth_append)
  next
    case un
    from un(6) have "take 4 (drop (i + 2) (s @ t)) = take 4 (drop (i + 2) s)" by simp
    with un il u IH [of "i + 6"] show ?thesis by (simp add: nth_append)
  next
    case re
    with il u IH [of "i + 1"] show ?thesis by (simp add: nth_append)
  qed
qed


lemma nth_append_length_hd: "t \<noteq> [] \<Longrightarrow> (s @ t) ! length s = hd t"
  by (cases t) simp_all

lemma peek_ext: "pos p < length (buffer p) \<Longrightarrow> jsonk_peek_char (ext p t) = jsonk_peek_char p"
  by (simp add: jsonk_peek_char_def nth_append)

lemma peek_ext_end:
  "pos p = length (buffer p) \<Longrightarrow>
   jsonk_peek_char (ext p t) = (if t = [] then NUL else hd t) \<and> jsonk_peek_char p = NUL"
  by (simp add: jsonk_peek_char_def nth_append_length_hd)

lemma is_digit_NUL [simp]: "\<not> is_digit NUL"
  by (simp add: is_digit_def NUL_def)

lemma peek_digit_in: "is_digit (jsonk_peek_char p) \<Longrightarrow> pos p < length (buffer p)"
  by (auto simp: jsonk_peek_char_def split: if_splits)

lemma number_sign_ext:
  "pos p < length (buffer p) \<Longrightarrow> number_sign (ext p t) = ext (number_sign p) t"
  by (simp add: number_sign_def peek_ext)

lemma number_sign_frame:
  "buffer (number_sign p) = buffer p \<and> pos p \<le> pos (number_sign p)
   \<and> pos (number_sign p) \<le> Suc (pos p)"
  by (simp add: number_sign_def)

lemma number_integer_part_frame:
  "number_integer_part p = Some p1 \<Longrightarrow>
     buffer p1 = buffer p \<and> pos p < pos p1 \<and> pos p1 \<le> length (buffer p)"
proof -
  assume a: "number_integer_part p = Some p1"
  then have d: "is_digit (jsonk_peek_char p)"
    by (auto simp: number_integer_part_def Let_def is_digit_def split: if_splits)
  then have il: "pos p < length (buffer p)" by (rule peek_digit_in)
  from a il skip_while_ge [of "Suc (pos p)" is_digit "buffer p"]
    skip_while_le [of "Suc (pos p)" "buffer p" is_digit]
  show ?thesis
    by (auto simp: number_integer_part_def Let_def split: if_splits)
qed

lemma number_integer_part_ext:
  assumes a: "number_integer_part p = Some p1"
    and c: "pos p1 < length (buffer p) \<or> t = [] \<or> \<not> is_digit (hd t)"
  shows "number_integer_part (ext p t) = Some (ext p1 t)"
proof -
  from a have d: "is_digit (jsonk_peek_char p)"
    by (auto simp: number_integer_part_def Let_def is_digit_def split: if_splits)
  then have il: "pos p < length (buffer p)" by (rule peek_digit_in)
  note pk = peek_ext [OF il, of t]
  show ?thesis
  proof (cases "jsonk_peek_char p = CHR ''0''")
    case True
    with a have p1: "p1 = p\<lparr>pos := pos p + 1\<rparr>" and nd: "\<not> is_digit (jsonk_peek_char p1)"
      by (auto simp: number_integer_part_def Let_def split: if_splits)
    have "\<not> is_digit (jsonk_peek_char (ext p1 t))"
    proof (cases "pos p1 < length (buffer p1)")
      case True
      with nd show ?thesis by (simp add: peek_ext)
    next
      case False
      with p1 il have e: "pos p1 = length (buffer p1)" by simp
      with c p1 have "t = [] \<or> \<not> is_digit (hd t)" by simp
      with peek_ext_end [OF e, of t] show ?thesis by auto
    qed
    with True pk p1 show ?thesis
      by (simp add: number_integer_part_def Let_def)
  next
    case False
    with a d have p1: "p1 = p\<lparr>pos := skip_while is_digit (buffer p) (pos p + 1)\<rparr>"
      by (auto simp: number_integer_part_def Let_def split: if_splits)
    from il c p1 have "skip_while is_digit (buffer p @ t) (pos p + 1)
        = skip_while is_digit (buffer p) (pos p + 1)"
      by (intro skip_while_ext) auto
    with False d pk p1 show ?thesis
      by (simp add: number_integer_part_def Let_def)
  qed
qed

lemma number_fraction_frame:
  "number_fraction p = Some p1 \<Longrightarrow> pos p \<le> length (buffer p) \<Longrightarrow>
     buffer p1 = buffer p \<and> pos p \<le> pos p1 \<and> pos p1 \<le> length (buffer p)"
  using skip_while_ge [of "Suc (pos p)" is_digit "buffer p"]
    skip_while_le [of "Suc (pos p)" "buffer p" is_digit]
  by (auto simp: number_fraction_def Let_def split: if_splits)

lemma number_fraction_ext:
  assumes a: "number_fraction p = Some p1" and le: "pos p \<le> length (buffer p)"
    and c: "pos p1 < length (buffer p) \<or> t = [] \<or> \<not> (is_digit (hd t) \<or> hd t = CHR ''.'')"
  shows "number_fraction (ext p t) = Some (ext p1 t)"
proof (cases "pos p < length (buffer p) \<and> buffer p ! pos p = CHR ''.''")
  case True
  with a have i: "pos p + 1 < length (buffer p)" and dg: "is_digit (buffer p ! (pos p + 1))"
    and p1: "p1 = p\<lparr>pos := skip_while is_digit (buffer p) (pos p + 1)\<rparr>"
    by (auto simp: number_fraction_def Let_def split: if_splits)
  from i c p1 have "skip_while is_digit (buffer p @ t) (pos p + 1)
      = skip_while is_digit (buffer p) (pos p + 1)"
    by (intro skip_while_ext) auto
  with True i dg p1 show ?thesis
    by (simp add: number_fraction_def Let_def nth_append)
next
  case False
  with a have p1: "p1 = p" by (auto simp: number_fraction_def Let_def split: if_splits)
  have "\<not> (pos p < length (buffer p @ t) \<and> (buffer p @ t) ! pos p = CHR ''.'')"
  proof (cases "pos p < length (buffer p)")
    case True
    with False show ?thesis by (simp add: nth_append)
  next
    case False
    with le have e: "pos p = length (buffer p)" by simp
    with c p1 have "t = [] \<or> hd t \<noteq> CHR ''.''" by auto
    with e show ?thesis by (auto simp: nth_append_length_hd)
  qed
  with p1 show ?thesis by (simp add: number_fraction_def)
qed

lemma number_exponent_frame:
  "number_exponent p = Some p1 \<Longrightarrow> pos p \<le> length (buffer p) \<Longrightarrow>
     buffer p1 = buffer p \<and> pos p \<le> pos p1 \<and> pos p1 \<le> length (buffer p)"
proof -
  assume a: "number_exponent p = Some p1" and le: "pos p \<le> length (buffer p)"
  show ?thesis
  proof (cases "pos p < length (buffer p)
         \<and> (buffer p ! pos p = CHR ''e'' \<or> buffer p ! pos p = CHR ''E'')")
    case False
    with a le show ?thesis by (auto simp: number_exponent_def Let_def split: if_splits)
  next
    case True
    define j where "j = (if pos p + 1 < length (buffer p)
                     \<and> (buffer p ! (pos p + 1) = CHR ''+'' \<or> buffer p ! (pos p + 1) = CHR ''-'')
                  then pos p + 1 + 1 else pos p + 1)"
    from True a have jl: "j < length (buffer p)" and p1: "p1 = p\<lparr>pos := skip_while is_digit (buffer p) j\<rparr>"
      by (auto simp: number_exponent_def Let_def j_def split: if_splits)
    from skip_while_ge [of j is_digit "buffer p"] skip_while_le [of j "buffer p" is_digit] jl p1
    show ?thesis by (auto simp: j_def split: if_splits)
  qed
qed

lemma number_exponent_ext:
  assumes a: "number_exponent p = Some p1" and le: "pos p \<le> length (buffer p)"
    and c: "pos p1 < length (buffer p) \<or> t = []
            \<or> \<not> (is_digit (hd t) \<or> hd t = CHR ''e'' \<or> hd t = CHR ''E'')"
  shows "number_exponent (ext p t) = Some (ext p1 t)"
proof (cases "pos p < length (buffer p)
         \<and> (buffer p ! pos p = CHR ''e'' \<or> buffer p ! pos p = CHR ''E'')")
  case True
  show ?thesis
  proof (cases "pos p + 1 < length (buffer p)
                     \<and> (buffer p ! (pos p + 1) = CHR ''+'' \<or> buffer p ! (pos p + 1) = CHR ''-'')")
    case sg: True
    with True a have jl: "pos p + 2 < length (buffer p)" and dg: "is_digit (buffer p ! (pos p + 2))"
      and p1: "p1 = p\<lparr>pos := skip_while is_digit (buffer p) (pos p + 2)\<rparr>"
      by (auto simp: number_exponent_def Let_def split: if_splits)
    from jl c p1 have "skip_while is_digit (buffer p @ t) (pos p + 2)
        = skip_while is_digit (buffer p) (pos p + 2)"
      by (intro skip_while_ext) auto
    with True sg jl dg p1 show ?thesis
      by (simp add: number_exponent_def Let_def nth_append)
  next
    case sg: False
    with True a have jl: "pos p + 1 < length (buffer p)" and dg: "is_digit (buffer p ! (pos p + 1))"
      and p1: "p1 = p\<lparr>pos := skip_while is_digit (buffer p) (pos p + 1)\<rparr>"
      by (auto simp: number_exponent_def Let_def split: if_splits)
    from jl c p1 have "skip_while is_digit (buffer p @ t) (pos p + 1)
        = skip_while is_digit (buffer p) (pos p + 1)"
      by (intro skip_while_ext) auto
    with True sg jl dg p1 show ?thesis
      by (simp add: number_exponent_def Let_def nth_append)
  qed
next
  case False
  with a have p1: "p1 = p" by (auto simp: number_exponent_def Let_def split: if_splits)
  have "\<not> (pos p < length (buffer p @ t)
      \<and> ((buffer p @ t) ! pos p = CHR ''e'' \<or> (buffer p @ t) ! pos p = CHR ''E''))"
  proof (cases "pos p < length (buffer p)")
    case True
    with False show ?thesis by (simp add: nth_append)
  next
    case False
    with le have e: "pos p = length (buffer p)" by simp
    with c p1 have "t = [] \<or> (hd t \<noteq> CHR ''e'' \<and> hd t \<noteq> CHR ''E'')" by auto
    with e show ?thesis by (auto simp: nth_append_length_hd)
  qed
  with p1 show ?thesis by (simp add: number_exponent_def)
qed

lemma jsonk_parse_number_frame:
  assumes a: "jsonk_parse_number p = Inr (p', tok)"
  shows "buffer p' = buffer p \<and> pos p < pos p' \<and> pos p' \<le> length (buffer p)
     \<and> tok = \<lparr>tok_type = JSONK_TOKEN_NUMBER, tok_start = pos p, tok_len = pos p' - pos p\<rparr>"
proof -
  from a obtain p1 p2 where
    i: "number_integer_part (number_sign p) = Some p1" and f: "number_fraction p1 = Some p2"
    and e: "number_exponent p2 = Some p'"
    and tk: "tok = \<lparr>tok_type = JSONK_TOKEN_NUMBER, tok_start = pos p, tok_len = pos p' - pos p\<rparr>"
    by (auto simp: jsonk_parse_number_def Let_def split: option.splits)
  from number_integer_part_frame [OF i] number_sign_frame [of p]
  have 1: "buffer p1 = buffer p" "pos p < pos p1" "pos p1 \<le> length (buffer p)" by auto
  from number_fraction_frame [OF f] 1
  have 2: "buffer p2 = buffer p" "pos p1 \<le> pos p2" "pos p2 \<le> length (buffer p)" by auto
  from number_exponent_frame [OF e] 2
  have 3: "buffer p' = buffer p" "pos p2 \<le> pos p'" "pos p' \<le> length (buffer p)" by auto
  from 1 2 3 tk show ?thesis by simp
qed

lemma jsonk_parse_number_ext:
  assumes a: "jsonk_parse_number p = Inr (p', tok)" and il: "pos p < length (buffer p)"
    and c: "pos p' < length (buffer p) \<or> t = [] \<or> \<not> continues_number (hd t)"
  shows "jsonk_parse_number (ext p t) = Inr (ext p' t, tok)"
proof -
  from a obtain p1 p2 where
    i: "number_integer_part (number_sign p) = Some p1" and f: "number_fraction p1 = Some p2"
    and e: "number_exponent p2 = Some p'"
    and tk: "tok = \<lparr>tok_type = JSONK_TOKEN_NUMBER, tok_start = pos p, tok_len = pos p' - pos p\<rparr>"
    by (auto simp: jsonk_parse_number_def Let_def split: option.splits)
  from number_integer_part_frame [OF i] number_sign_frame [of p]
  have 1: "buffer p1 = buffer p" "pos p < pos p1" "pos p1 \<le> length (buffer p)" by auto
  from number_fraction_frame [OF f] 1
  have 2: "buffer p2 = buffer p" "pos p1 \<le> pos p2" "pos p2 \<le> length (buffer p)" by auto
  from number_exponent_frame [OF e] 2
  have 3: "buffer p' = buffer p" "pos p2 \<le> pos p'" "pos p' \<le> length (buffer p)" by auto
  have b0: "buffer (number_sign p) = buffer p" by (simp add: number_sign_frame)
  from c 1 2 3 have c1: "pos p1 < length (buffer (number_sign p)) \<or> t = [] \<or> \<not> is_digit (hd t)"
    by (auto simp: continues_number_def b0)
  from c 1 2 3 have c2: "pos p2 < length (buffer p1) \<or> t = []
      \<or> \<not> (is_digit (hd t) \<or> hd t = CHR ''.'')"
    by (auto simp: continues_number_def)
  from c 1 2 3 have c3: "pos p' < length (buffer p2) \<or> t = []
      \<or> \<not> (is_digit (hd t) \<or> hd t = CHR ''e'' \<or> hd t = CHR ''E'')"
    by (auto simp: continues_number_def)
  have s: "number_sign (ext p t) = ext (number_sign p) t" by (rule number_sign_ext [OF il])
  have i': "number_integer_part (ext (number_sign p) t) = Some (ext p1 t)"
    by (rule number_integer_part_ext [OF i c1])
  have f': "number_fraction (ext p1 t) = Some (ext p2 t)"
    using 1 by (intro number_fraction_ext [OF f _ c2]) simp
  have e': "number_exponent (ext p2 t) = Some (ext p' t)"
    using 2 by (intro number_exponent_ext [OF e _ c3]) simp
  from s i' f' e' tk show ?thesis
    by (simp add: jsonk_parse_number_def Let_def)
qed

lemma jsonk_parse_string_Inr:
  assumes "jsonk_parse_string p = Inr (p', tok)"
  shows "\<exists>c. parse_string_loop (buffer p) (pos p + 1) = Some c \<and> p' = p\<lparr>pos := c + 1\<rparr>
     \<and> tok = \<lparr>tok_type = JSONK_TOKEN_STRING, tok_start = pos p + 1, tok_len = c - (pos p + 1)\<rparr>"
  using assms by (auto simp: jsonk_parse_string_def Let_def split: option.splits)

lemma jsonk_parse_string_frame:
  assumes "jsonk_parse_string p = Inr (p', tok)"
  shows "buffer p' = buffer p \<and> pos p < pos p' \<and> pos p' \<le> length (buffer p)
     \<and> tok_type tok = JSONK_TOKEN_STRING \<and> tok_start tok + tok_len tok \<le> length (buffer p)"
proof -
  from jsonk_parse_string_Inr [OF assms] obtain c where
    l: "parse_string_loop (buffer p) (pos p + 1) = Some c" and p': "p' = p\<lparr>pos := c + 1\<rparr>"
    and tk: "tok = \<lparr>tok_type = JSONK_TOKEN_STRING, tok_start = pos p + 1, tok_len = c - (pos p + 1)\<rparr>"
    by blast
  from parse_string_loop_bound [OF l] have "pos p + 1 \<le> c" "c < length (buffer p)" by auto
  with p' tk show ?thesis by simp
qed

lemma jsonk_parse_string_ext:
  assumes "jsonk_parse_string p = Inr (p', tok)"
  shows "jsonk_parse_string (ext p t) = Inr (ext p' t, tok)"
proof -
  from jsonk_parse_string_Inr [OF assms] obtain c where
    l: "parse_string_loop (buffer p) (pos p + 1) = Some c" and p': "p' = p\<lparr>pos := c + 1\<rparr>"
    and tk: "tok = \<lparr>tok_type = JSONK_TOKEN_STRING, tok_start = pos p + 1, tok_len = c - (pos p + 1)\<rparr>"
    by blast
  from parse_string_loop_ext [OF l, of t] p' tk show ?thesis
    by (simp add: jsonk_parse_string_def Let_def)
qed

lemma literal_at_ext: "literal_at p lit \<Longrightarrow> literal_at (ext p t) lit"
  by (auto simp: literal_at_def)

lemma literal_at_ext_iff:
  "pos p + length lit \<le> length (buffer p) \<Longrightarrow> literal_at (ext p t) lit = literal_at p lit"
  by (auto simp: literal_at_def)

lemma take_eq_Cons_hd: "take n xs = c # cs \<Longrightarrow> xs \<noteq> [] \<and> hd xs = c"
  by (cases xs; cases n) auto

lemma literal_at_first:
  assumes "literal_at p lit" and "lit \<noteq> []"
  shows "pos p < length (buffer p) \<and> buffer p ! pos p = hd lit"
proof -
  from assms obtain c cs where l: "lit = c # cs" by (cases lit) auto
  with assms have "take (length lit) (drop (pos p) (buffer p)) = c # cs"
    by (simp add: literal_at_def)
  from take_eq_Cons_hd [OF this] have "drop (pos p) (buffer p) \<noteq> []"
    and "hd (drop (pos p) (buffer p)) = c" by auto
  then show ?thesis using l by (simp add: hd_drop_conv_nth)
qed

lemma jsonk_parse_literal_frame:
  "jsonk_parse_literal p = Inr (p', tok) \<Longrightarrow>
     buffer p' = buffer p \<and> pos p < pos p' \<and> pos p' \<le> length (buffer p)
     \<and> tok_type tok \<in> {JSONK_TOKEN_TRUE, JSONK_TOKEN_FALSE, JSONK_TOKEN_NULL}"
  by (auto simp: jsonk_parse_literal_def literal_at_def split: if_splits)

lemma jsonk_parse_literal_ext:
  assumes a: "jsonk_parse_literal p = Inr (p', tok)"
  shows "jsonk_parse_literal (ext p t) = Inr (ext p' t, tok)"
proof -
  have nt: "\<And>lit lit'. literal_at p lit \<Longrightarrow> lit \<noteq> [] \<Longrightarrow> lit' \<noteq> [] \<Longrightarrow> hd lit' \<noteq> hd lit
      \<Longrightarrow> \<not> literal_at (ext p t) lit'"
  proof
    fix lit lit' assume l: "literal_at p lit" "lit \<noteq> []" and l': "lit' \<noteq> []" "hd lit' \<noteq> hd lit"
      and x: "literal_at (ext p t) lit'"
    from literal_at_first [OF l] have "pos p < length (buffer p)" "buffer p ! pos p = hd lit" by auto
    moreover from literal_at_first [OF x l'(1)] have "(buffer p @ t) ! pos p = hd lit'" by simp
    ultimately show False using l'(2) by (simp add: nth_append)
  qed
  show ?thesis
  proof (cases "literal_at p ''true''")
    case True
    with a literal_at_ext [OF True, of t] show ?thesis
      by (auto simp: jsonk_parse_literal_def)
  next
    case nt1: False
    show ?thesis
    proof (cases "literal_at p ''false''")
      case True
      from nt [OF True, of "''true''"] have "\<not> literal_at (ext p t) ''true''" by simp
      with a nt1 True literal_at_ext [OF True, of t] show ?thesis
        by (auto simp: jsonk_parse_literal_def)
    next
      case nf: False
      with a nt1 have n: "literal_at p ''null''"
        by (auto simp: jsonk_parse_literal_def split: if_splits)
      from nt [OF n, of "''true''"] have 1: "\<not> literal_at (ext p t) ''true''" by simp
      from nt [OF n, of "''false''"] have 2: "\<not> literal_at (ext p t) ''false''" by simp
      from a nt1 nf n 1 2 literal_at_ext [OF n, of t] show ?thesis
        by (auto simp: jsonk_parse_literal_def)
    qed
  qed
qed

lemma jsonk_next_token_dispatch:
  "jsonk_next_token p =
     (let q = jsonk_skip_whitespace p
      in if pos q \<ge> length (buffer q) then Inl ENODATA
         else dispatch_token (buffer q ! pos q) q)"
  by (simp add: jsonk_next_token_def dispatch_token_def Let_def)

lemma skip_whitespace_frame:
  "buffer (jsonk_skip_whitespace p) = buffer p \<and> pos p \<le> pos (jsonk_skip_whitespace p)"
  by (simp add: jsonk_skip_whitespace_def skip_while_ge)

lemma skip_whitespace_ext:
  assumes "pos (jsonk_skip_whitespace p) < length (buffer p)"
  shows "jsonk_skip_whitespace (ext p t) = ext (jsonk_skip_whitespace p) t"
proof -
  from assms skip_while_ge [of "pos p" jsonk_is_whitespace "buffer p"]
  have "pos p \<le> length (buffer p)" by (simp add: jsonk_skip_whitespace_def)
  with assms have "skip_while jsonk_is_whitespace (buffer p @ t) (pos p)
      = skip_while jsonk_is_whitespace (buffer p) (pos p)"
    by (intro skip_while_ext) (auto simp: jsonk_skip_whitespace_def)
  then show ?thesis by (simp add: jsonk_skip_whitespace_def ext_def)
qed

lemma dispatch_token_frame:
  assumes a: "dispatch_token c p = Inr (p', tok)" and il: "pos p < length (buffer p)"
  shows "buffer p' = buffer p \<and> pos p < pos p' \<and> pos p' \<le> length (buffer p)
     \<and> (tok_type tok = JSONK_TOKEN_STRING \<or> tok_type tok = JSONK_TOKEN_NUMBER
          \<longrightarrow> tok_start tok + tok_len tok \<le> length (buffer p))
     \<and> (tok_type tok = JSONK_TOKEN_OBJECT_START \<or> tok_type tok = JSONK_TOKEN_ARRAY_START
          \<longrightarrow> tok_len tok = 1 \<and> pos p' = pos p + 1)"
proof -
  from a consider
      (single) ty where "single_char_token p ty = Inr (p', tok)"
        "ty \<noteq> JSONK_TOKEN_STRING" "ty \<noteq> JSONK_TOKEN_NUMBER"
    | (str) "jsonk_parse_string p = Inr (p', tok)"
    | (num) "jsonk_parse_number p = Inr (p', tok)"
    | (lit) "jsonk_parse_literal p = Inr (p', tok)"
    by (auto simp: dispatch_token_def split: if_splits)
  then show ?thesis
  proof cases
    case single
    with il show ?thesis by (auto simp: single_char_token_def)
  next
    case str
    from jsonk_parse_string_frame [OF str] show ?thesis by auto
  next
    case num
    from jsonk_parse_number_frame [OF num] show ?thesis by auto
  next
    case lit
    from jsonk_parse_literal_frame [OF lit] show ?thesis by auto
  qed
qed

lemma dispatch_token_ext:
  assumes a: "dispatch_token c p = Inr (p', tok)" and il: "pos p < length (buffer p)"
    and c: "tok_type tok \<noteq> JSONK_TOKEN_NUMBER \<or> pos p' < length (buffer p) \<or> t = []
            \<or> \<not> continues_number (hd t)"
  shows "dispatch_token c (ext p t) = Inr (ext p' t, tok)"
proof -
  have sg: "\<And>ty. single_char_token p ty = Inr (p', tok) \<Longrightarrow>
              single_char_token (ext p t) ty = Inr (ext p' t, tok)"
    by (auto simp: single_char_token_def)
  have nm: "jsonk_parse_number p = Inr (p', tok) \<Longrightarrow>
              jsonk_parse_number (ext p t) = Inr (ext p' t, tok)"
  proof -
    assume n: "jsonk_parse_number p = Inr (p', tok)"
    from jsonk_parse_number_frame [OF n] have "tok_type tok = JSONK_TOKEN_NUMBER" by simp
    with c have "pos p' < length (buffer p) \<or> t = [] \<or> \<not> continues_number (hd t)" by simp
    from jsonk_parse_number_ext [OF n il this] show ?thesis .
  qed
  from a show ?thesis
    unfolding dispatch_token_def
    by (auto split: if_splits
             simp: sg nm jsonk_parse_string_ext jsonk_parse_literal_ext DQUOTE_def)
qed

lemma jsonk_next_token_frame:
  assumes a: "jsonk_next_token p = Inr (p', tok)"
  shows "buffer p' = buffer p \<and> pos p < pos p' \<and> pos p' \<le> length (buffer p)
     \<and> (tok_type tok = JSONK_TOKEN_STRING \<or> tok_type tok = JSONK_TOKEN_NUMBER
          \<longrightarrow> tok_start tok + tok_len tok \<le> length (buffer p))
     \<and> (tok_type tok = JSONK_TOKEN_OBJECT_START \<or> tok_type tok = JSONK_TOKEN_ARRAY_START
          \<longrightarrow> tok_len tok = 1 \<and> 0 < pos p')"
proof -
  define q where "q = jsonk_skip_whitespace p"
  from a have ql: "pos q < length (buffer q)"
    and d: "dispatch_token (buffer q ! pos q) q = Inr (p', tok)"
    by (auto simp: jsonk_next_token_dispatch Let_def q_def split: if_splits)
  from dispatch_token_frame [OF d ql] skip_whitespace_frame [of p]
  show ?thesis by (auto simp: q_def)
qed

lemma jsonk_next_token_ext:
  assumes a: "jsonk_next_token p = Inr (p', tok)"
    and c: "tok_type tok \<noteq> JSONK_TOKEN_NUMBER \<or> pos p' < length (buffer p) \<or> t = []
            \<or> \<not> continues_number (hd t)"
  shows "jsonk_next_token (ext p t) = Inr (ext p' t, tok)"
proof -
  define q where "q = jsonk_skip_whitespace p"
  from a have ql: "pos q < length (buffer q)"
    and d: "dispatch_token (buffer q ! pos q) q = Inr (p', tok)"
    by (auto simp: jsonk_next_token_dispatch Let_def q_def split: if_splits)
  have bq: "buffer q = buffer p" by (simp add: q_def skip_whitespace_frame)
  from ql bq have e: "jsonk_skip_whitespace (ext p t) = ext q t"
    by (simp add: q_def skip_whitespace_ext)
  from c bq have c': "tok_type tok \<noteq> JSONK_TOKEN_NUMBER \<or> pos p' < length (buffer q) \<or> t = []
            \<or> \<not> continues_number (hd t)" by simp
  from dispatch_token_ext [OF d ql c'] ql e show ?thesis
    by (simp add: jsonk_next_token_dispatch Let_def nth_append)
qed

lemma token_bytes_ext:
  "tok_start tok + tok_len tok \<le> length (buffer p) \<Longrightarrow> token_bytes (ext p t) tok = token_bytes p tok"
  by (simp add: token_bytes_def)

lemma create_string_tracked_frame:
  "jsonk_value_create_string_tracked str (Some p) = Some (v, r) \<Longrightarrow>
     \<exists>p'. r = Some p' \<and> buffer p' = buffer p \<and> pos p' = pos p"
  by (auto simp: jsonk_value_create_string_tracked_def jsonk_value_create_tracked_def
        jsonk_tracked_alloc_def Let_def split: if_splits option.splits)

lemma create_string_tracked_ext:
  "jsonk_value_create_string_tracked str (Some p) = Some (v, Some p') \<Longrightarrow>
   jsonk_value_create_string_tracked str (Some (ext p t)) = Some (v, Some (ext p' t))"
  by (auto simp: jsonk_value_create_string_tracked_def jsonk_value_create_tracked_def
        jsonk_tracked_alloc_def Let_def ext_def split: if_splits option.splits)

lemma add_member_tracked_frame:
  "jsonk_object_add_member_tracked obj key n v (Some p) = Inr (obj', r) \<Longrightarrow>
     \<exists>p'. r = Some p' \<and> buffer p' = buffer p \<and> pos p' = pos p"
  by (auto simp: jsonk_object_add_member_tracked_def jsonk_tracked_alloc_def
        split: if_splits option.splits)

lemma add_member_tracked_ext:
  "jsonk_object_add_member_tracked obj key n v (Some p) = Inr (obj', Some p') \<Longrightarrow>
   jsonk_object_add_member_tracked obj key n v (Some (ext p t)) = Inr (obj', Some (ext p' t))"
  by (auto simp: jsonk_object_add_member_tracked_def jsonk_tracked_alloc_def ext_def
        split: if_splits option.splits)

lemma add_element_tracked_frame:
  "jsonk_array_add_element_tracked arr v (Some p) = Inr (arr', r) \<Longrightarrow>
     \<exists>p'. r = Some p' \<and> buffer p' = buffer p \<and> pos p' = pos p"
  by (auto simp: jsonk_array_add_element_tracked_def split: if_splits option.splits)

lemma add_element_tracked_ext:
  "jsonk_array_add_element_tracked arr v (Some p) = Inr (arr', Some p') \<Longrightarrow>
   jsonk_array_add_element_tracked arr v (Some (ext p t)) = Inr (arr', Some (ext p' t))"
  by (auto simp: jsonk_array_add_element_tracked_def ext_def split: if_splits option.splits)

subsection \<open>The parser on a longer buffer\<close>

text \<open>A successful parsing function leaves the buffer as it is and moves forward in it.\<close>

lemma parse_frame:
  "\<forall>p' v. jsonk_parse_value depth p = Some (p', v) \<longrightarrow>
      buffer p' = buffer p \<and> pos p < pos p' \<and> pos p' \<le> length (buffer p)"
  "\<forall>p' v. jsonk_parse_object depth p = Some (p', v) \<longrightarrow>
      buffer p' = buffer p \<and> pos p < pos p' \<and> pos p' \<le> length (buffer p)"
  "\<forall>p' v. parse_object_members depth p token obj = Some (p', v) \<longrightarrow>
      buffer p' = buffer p \<and> pos p < pos p' \<and> pos p' \<le> length (buffer p)"
  "\<forall>p' v. jsonk_parse_array depth p = Some (p', v) \<longrightarrow>
      buffer p' = buffer p \<and> pos p < pos p' \<and> pos p' \<le> length (buffer p)"
  "\<forall>p' v. parse_array_elements depth p arr = Some (p', v) \<longrightarrow>
      buffer p' = buffer p \<and> pos p < pos p' \<and> pos p' \<le> length (buffer p)"
proof (induction depth p and depth p and depth p token obj and depth p and depth p arr
       rule: jsonk_parse_value_jsonk_parse_object_parse_object_members_jsonk_parse_array_parse_array_elements.induct)
  case (1 depth p)
  show ?case
  proof (intro allI impI)
    fix p' v assume a: "jsonk_parse_value depth p = Some (p', v)"
    from jsonk_parse_value_Some [OF a] obtain p1 t where
      d: "depth < JSONK_MAX_DEPTH" and nt: "jsonk_next_token p = Inr (p1, t)" and
      c: "case tok_type t of
        JSONK_TOKEN_OBJECT_START \<Rightarrow>
          jsonk_parse_object (depth + 1) (p1\<lparr>pos := pos p1 - tok_len t\<rparr>) = Some (p', v)
      | JSONK_TOKEN_ARRAY_START \<Rightarrow>
          jsonk_parse_array (depth + 1) (p1\<lparr>pos := pos p1 - tok_len t\<rparr>) = Some (p', v)
      | JSONK_TOKEN_STRING \<Rightarrow>
          jsonk_value_create_string_tracked (token_bytes p1 t) (Some p1) = Some (v, Some p')
      | JSONK_TOKEN_NUMBER \<Rightarrow> p' = p1 \<and> jsonk_value_create_number (token_bytes p1 t) = Some v
      | JSONK_TOKEN_TRUE \<Rightarrow> p' = p1 \<and> v = JSONK_VALUE_BOOLEAN True
      | JSONK_TOKEN_FALSE \<Rightarrow> p' = p1 \<and> v = JSONK_VALUE_BOOLEAN False
      | JSONK_TOKEN_NULL \<Rightarrow> p' = p1 \<and> v = JSONK_VALUE_NULL
      | _ \<Rightarrow> False" by blast
    note f = jsonk_next_token_frame [OF nt]
    have o: "tok_type t = JSONK_TOKEN_OBJECT_START \<Longrightarrow>
        buffer p' = buffer p1 \<and> pos p1 - tok_len t < pos p' \<and> pos p' \<le> length (buffer p1)"
      using 1(1) [OF _ nt refl] d c by simp
    have r: "tok_type t = JSONK_TOKEN_ARRAY_START \<Longrightarrow>
        buffer p' = buffer p1 \<and> pos p1 - tok_len t < pos p' \<and> pos p' \<le> length (buffer p1)"
      using 1(2) [OF _ nt refl] d c by simp
    show "buffer p' = buffer p \<and> pos p < pos p' \<and> pos p' \<le> length (buffer p)"
    proof (cases "tok_type t")
      case JSONK_TOKEN_OBJECT_START
      with o f show ?thesis by auto
    next
      case JSONK_TOKEN_ARRAY_START
      with r f show ?thesis by auto
    next
      case JSONK_TOKEN_STRING
      with c f create_string_tracked_frame [of "token_bytes p1 t" p1 v "Some p'"]
      show ?thesis by auto
    qed (use c f in auto)
  qed
next
  case (2 depth p)
  show ?case
  proof (intro allI impI)
    fix p' v assume a: "jsonk_parse_object depth p = Some (p', v)"
    from jsonk_parse_object_Some [OF a] obtain p1 t1 p2 t2 where
      n1: "jsonk_next_token p = Inr (p1, t1)" and s1: "tok_type t1 = JSONK_TOKEN_OBJECT_START" and
      n2: "jsonk_next_token p1 = Inr (p2, t2)" and
      c: "if tok_type t2 = JSONK_TOKEN_OBJECT_END then p' = p2 \<and> v = JSONK_VALUE_OBJECT []
         else parse_object_members depth p2 t2 [] = Some (p', v)" by blast
    note f1 = jsonk_next_token_frame [OF n1] and f2 = jsonk_next_token_frame [OF n2]
    show "buffer p' = buffer p \<and> pos p < pos p' \<and> pos p' \<le> length (buffer p)"
    proof (cases "tok_type t2 = JSONK_TOKEN_OBJECT_END")
      case True
      with c f1 f2 show ?thesis by auto
    next
      case False
      with c have "parse_object_members depth p2 t2 [] = Some (p', v)" by simp
      with 2 [OF n1 refl _ n2 refl False] s1 f1 f2 show ?thesis by auto
    qed
  qed
next
  case (3 depth p token obj)
  show ?case
  proof (intro allI impI)
    fix p' v assume a: "parse_object_members depth p token obj = Some (p', v)"
    from parse_object_members_Some [OF a] obtain p1 t1 p2 mv obj' p3 p4 t4 where
      ts: "tok_type token = JSONK_TOKEN_STRING" and
      n1: "jsonk_next_token p = Inr (p1, t1)" and c1: "tok_type t1 = JSONK_TOKEN_COLON" and
      pv: "jsonk_parse_value depth p1 = Some (p2, mv)" and
      ad: "jsonk_object_add_member_tracked obj (token_bytes p token @ [NUL]) (tok_len t1) mv (Some p2)
          = Inr (obj', Some p3)" and
      n4: "jsonk_next_token p3 = Inr (p4, t4)" and
      c: "if tok_type t4 = JSONK_TOKEN_OBJECT_END then p' = p4 \<and> v = JSONK_VALUE_OBJECT obj'
         else tok_type t4 = JSONK_TOKEN_COMMA
              \<and> (\<exists>p5 t5. jsonk_next_token p4 = Inr (p5, t5)
                    \<and> parse_object_members depth p5 t5 obj' = Some (p', v))" by blast
    note f1 = jsonk_next_token_frame [OF n1] and f4 = jsonk_next_token_frame [OF n4]
    have fv: "buffer p2 = buffer p1 \<and> pos p1 < pos p2 \<and> pos p2 \<le> length (buffer p1)"
      using 3(1) [OF _ refl n1 refl _] ts c1 pv by simp
    from add_member_tracked_frame [OF ad] have fa: "buffer p3 = buffer p2 \<and> pos p3 = pos p2" by simp
    show "buffer p' = buffer p \<and> pos p < pos p' \<and> pos p' \<le> length (buffer p)"
    proof (cases "tok_type t4 = JSONK_TOKEN_OBJECT_END")
      case True
      with c f1 fv fa f4 show ?thesis by auto
    next
      case False
      with c obtain p5 t5 where cm: "tok_type t4 = JSONK_TOKEN_COMMA" and
        n5: "jsonk_next_token p4 = Inr (p5, t5)" and
        rec: "parse_object_members depth p5 t5 obj' = Some (p', v)" by auto
      note f5 = jsonk_next_token_frame [OF n5]
      from 3(2) [OF _ refl n1 refl _ pv refl ad refl refl n4 refl False _ n5 refl] ts c1 cm rec
      have "buffer p' = buffer p5 \<and> pos p5 < pos p' \<and> pos p' \<le> length (buffer p5)" by simp
      with f1 fv fa f4 f5 show ?thesis by auto
    qed
  qed
next
  case (4 depth p)
  show ?case
  proof (intro allI impI)
    fix p' v assume a: "jsonk_parse_array depth p = Some (p', v)"
    from jsonk_parse_array_Some [OF a] obtain p1 t1 where
      n1: "jsonk_next_token p = Inr (p1, t1)" and s1: "tok_type t1 = JSONK_TOKEN_ARRAY_START" and
      rec: "parse_array_elements depth p1 [] = Some (p', v)" by blast
    from 4 [OF n1 refl] s1 rec jsonk_next_token_frame [OF n1]
    show "buffer p' = buffer p \<and> pos p < pos p' \<and> pos p' \<le> length (buffer p)" by auto
  qed
next
  case (5 depth p arr)
  show ?case
  proof (intro allI impI)
    fix p' v assume a: "parse_array_elements depth p arr = Some (p', v)"
    define q where "q = jsonk_skip_whitespace p"
    have fq: "buffer q = buffer p \<and> pos p \<le> pos q" by (simp add: q_def skip_whitespace_frame)
    show "buffer p' = buffer p \<and> pos p < pos p' \<and> pos p' \<le> length (buffer p)"
    proof (cases "pos q < length (buffer q) \<and> buffer q ! pos q = CHR '']''")
      case True
      with parse_array_elements_Some [OF a] fq show ?thesis by (auto simp: q_def Let_def)
    next
      case False
      with parse_array_elements_Some [OF a] obtain p2 ev arr' p3 p4 t4 where
        pv: "jsonk_parse_value depth q = Some (p2, ev)" and
        ad: "jsonk_array_add_element_tracked arr ev (Some p2) = Inr (arr', Some p3)" and
        n4: "jsonk_next_token p3 = Inr (p4, t4)" and
        c: "if tok_type t4 = JSONK_TOKEN_ARRAY_END then p' = p4 \<and> v = JSONK_VALUE_ARRAY arr'
          else tok_type t4 = JSONK_TOKEN_COMMA
               \<and> parse_array_elements depth p4 arr' = Some (p', v)"
        by (auto simp: q_def Let_def)
      have fv: "buffer p2 = buffer q \<and> pos q < pos p2 \<and> pos p2 \<le> length (buffer q)"
        using 5(1) [OF q_def False] pv by simp
      from add_element_tracked_frame [OF ad] have fa: "buffer p3 = buffer p2 \<and> pos p3 = pos p2"
        by simp
      note f4 = jsonk_next_token_frame [OF n4]
      show ?thesis
      proof (cases "tok_type t4 = JSONK_TOKEN_ARRAY_END")
        case True
        with c fq fv fa f4 show ?thesis by auto
      next
        case False
        with c have cm: "tok_type t4 = JSONK_TOKEN_COMMA" and
          rec: "parse_array_elements depth p4 arr' = Some (p', v)" by auto
        from 5(2) [OF q_def \<open>\<not> (pos q < length (buffer q) \<and> buffer q ! pos q = CHR '']'')\<close>
                     pv refl ad refl refl n4 refl False] cm rec
        have "buffer p' = buffer p4 \<and> pos p4 < pos p' \<and> pos p' \<le> length (buffer p4)" by simp
        with fq fv fa f4 show ?thesis by auto
      qed
    qed
  qed
qed

lemma next_token_pos_in: "jsonk_next_token p = Inr (p', tk) \<Longrightarrow> pos p < length (buffer p)"
  using jsonk_next_token_frame [of p p' tk] by simp

lemma parse_ext:
  "\<forall>p' v. jsonk_parse_value depth p = Some (p', v) \<longrightarrow>
      ((\<forall>i f n b. v \<noteq> JSONK_VALUE_NUMBER i f n b) \<or> pos p' < length (buffer p) \<or> t = []
         \<or> \<not> continues_number (hd t)) \<longrightarrow>
      jsonk_parse_value depth (ext p t) = Some (ext p' t, v)"
  "\<forall>p' v. jsonk_parse_object depth p = Some (p', v) \<longrightarrow>
      jsonk_parse_object depth (ext p t) = Some (ext p' t, v)"
  "\<forall>p' v. parse_object_members depth p token obj = Some (p', v) \<longrightarrow>
      tok_start token + tok_len token \<le> length (buffer p) \<longrightarrow>
      parse_object_members depth (ext p t) token obj = Some (ext p' t, v)"
  "\<forall>p' v. jsonk_parse_array depth p = Some (p', v) \<longrightarrow>
      jsonk_parse_array depth (ext p t) = Some (ext p' t, v)"
  "\<forall>p' v. parse_array_elements depth p arr = Some (p', v) \<longrightarrow>
      parse_array_elements depth (ext p t) arr = Some (ext p' t, v)"
proof (induction depth p and depth p and depth p token obj and depth p and depth p arr
       rule: jsonk_parse_value_jsonk_parse_object_parse_object_members_jsonk_parse_array_parse_array_elements.induct)
  case (1 depth p)
  show ?case
  proof (intro allI impI)
    fix p' v assume a: "jsonk_parse_value depth p = Some (p', v)"
      and cnd: "(\<forall>i f n b. v \<noteq> JSONK_VALUE_NUMBER i f n b) \<or> pos p' < length (buffer p) \<or> t = []
         \<or> \<not> continues_number (hd t)"
    from jsonk_parse_value_Some [OF a] obtain p1 tk where
      d: "depth < JSONK_MAX_DEPTH" and nt: "jsonk_next_token p = Inr (p1, tk)" and
      c: "case tok_type tk of
        JSONK_TOKEN_OBJECT_START \<Rightarrow>
          jsonk_parse_object (depth + 1) (p1\<lparr>pos := pos p1 - tok_len tk\<rparr>) = Some (p', v)
      | JSONK_TOKEN_ARRAY_START \<Rightarrow>
          jsonk_parse_array (depth + 1) (p1\<lparr>pos := pos p1 - tok_len tk\<rparr>) = Some (p', v)
      | JSONK_TOKEN_STRING \<Rightarrow>
          jsonk_value_create_string_tracked (token_bytes p1 tk) (Some p1) = Some (v, Some p')
      | JSONK_TOKEN_NUMBER \<Rightarrow> p' = p1 \<and> jsonk_value_create_number (token_bytes p1 tk) = Some v
      | JSONK_TOKEN_TRUE \<Rightarrow> p' = p1 \<and> v = JSONK_VALUE_BOOLEAN True
      | JSONK_TOKEN_FALSE \<Rightarrow> p' = p1 \<and> v = JSONK_VALUE_BOOLEAN False
      | JSONK_TOKEN_NULL \<Rightarrow> p' = p1 \<and> v = JSONK_VALUE_NULL
      | _ \<Rightarrow> False" by blast
    note f = jsonk_next_token_frame [OF nt]
    have ncond: "tok_type tk \<noteq> JSONK_TOKEN_NUMBER \<or> pos p1 < length (buffer p) \<or> t = []
            \<or> \<not> continues_number (hd t)"
    proof (cases "tok_type tk = JSONK_TOKEN_NUMBER")
      case True
      with c have "p' = p1" and "jsonk_value_create_number (token_bytes p1 tk) = Some v" by auto
      with create_number_is_number [of "token_bytes p1 tk" v] cnd show ?thesis by auto
    qed simp
    note n' = jsonk_next_token_ext [OF nt ncond]
    have nd: "\<not> JSONK_MAX_DEPTH \<le> depth" using d by simp
    show "jsonk_parse_value depth (ext p t) = Some (ext p' t, v)"
    proof (cases "tok_type tk")
      case JSONK_TOKEN_OBJECT_START
      with c 1(1) [OF nd nt refl JSONK_TOKEN_OBJECT_START]
      have "jsonk_parse_object (depth + 1) ((ext p1 t)\<lparr>pos := pos p1 - tok_len tk\<rparr>)
              = Some (ext p' t, v)" by simp
      with n' nd JSONK_TOKEN_OBJECT_START show ?thesis
        by (subst jsonk_parse_value.simps) simp
    next
      case JSONK_TOKEN_ARRAY_START
      with c 1(2) [OF nd nt refl JSONK_TOKEN_ARRAY_START]
      have "jsonk_parse_array (depth + 1) ((ext p1 t)\<lparr>pos := pos p1 - tok_len tk\<rparr>)
              = Some (ext p' t, v)" by simp
      with n' nd JSONK_TOKEN_ARRAY_START show ?thesis
        by (subst jsonk_parse_value.simps) simp
    next
      case JSONK_TOKEN_STRING
      with f have "token_bytes (ext p1 t) tk = token_bytes p1 tk"
        by (intro token_bytes_ext) simp
      moreover from JSONK_TOKEN_STRING c
      have "jsonk_value_create_string_tracked (token_bytes p1 tk) (Some (ext p1 t))
              = Some (v, Some (ext p' t))"
        by (intro create_string_tracked_ext) simp
      ultimately show ?thesis using n' nd JSONK_TOKEN_STRING
        by (subst jsonk_parse_value.simps) simp
    next
      case JSONK_TOKEN_NUMBER
      with f have "token_bytes (ext p1 t) tk = token_bytes p1 tk"
        by (intro token_bytes_ext) simp
      with c n' nd JSONK_TOKEN_NUMBER show ?thesis
        by (subst jsonk_parse_value.simps) simp
    next
      case JSONK_TOKEN_TRUE
      with c n' nd show ?thesis by (subst jsonk_parse_value.simps) simp
    next
      case JSONK_TOKEN_FALSE
      with c n' nd show ?thesis by (subst jsonk_parse_value.simps) simp
    next
      case JSONK_TOKEN_NULL
      with c n' nd show ?thesis by (subst jsonk_parse_value.simps) simp
    qed (use c in simp_all)
  qed
next
  case (2 depth p)
  show ?case
  proof (intro allI impI)
    fix p' v assume a: "jsonk_parse_object depth p = Some (p', v)"
    from jsonk_parse_object_Some [OF a] obtain p1 t1 p2 t2 where
      n1: "jsonk_next_token p = Inr (p1, t1)" and s1: "tok_type t1 = JSONK_TOKEN_OBJECT_START" and
      n2: "jsonk_next_token p1 = Inr (p2, t2)" and
      c: "if tok_type t2 = JSONK_TOKEN_OBJECT_END then p' = p2 \<and> v = JSONK_VALUE_OBJECT []
         else parse_object_members depth p2 t2 [] = Some (p', v)" by blast
    note f1 = jsonk_next_token_frame [OF n1] and f2 = jsonk_next_token_frame [OF n2]
    from s1 have n1': "jsonk_next_token (ext p t) = Inr (ext p1 t, t1)"
      by (intro jsonk_next_token_ext [OF n1]) simp
    show "jsonk_parse_object depth (ext p t) = Some (ext p' t, v)"
    proof (cases "tok_type t2 = JSONK_TOKEN_OBJECT_END")
      case True
      then have n2': "jsonk_next_token (ext p1 t) = Inr (ext p2 t, t2)"
        by (intro jsonk_next_token_ext [OF n2]) simp
      with True c n1' s1 show ?thesis
        by (subst jsonk_parse_object.simps) simp
    next
      case False
      with c have rec: "parse_object_members depth p2 t2 [] = Some (p', v)" by simp
      from parse_object_members_Some [OF rec] have ts: "tok_type t2 = JSONK_TOKEN_STRING" by simp
      then have n2': "jsonk_next_token (ext p1 t) = Inr (ext p2 t, t2)"
        by (intro jsonk_next_token_ext [OF n2]) simp
      from ts f2 have "tok_start t2 + tok_len t2 \<le> length (buffer p2)" by simp
      with 2 [OF n1 refl _ n2 refl False] s1 rec
      have "parse_object_members depth (ext p2 t) t2 [] = Some (ext p' t, v)" by simp
      with False n1' n2' s1 show ?thesis
        by (subst jsonk_parse_object.simps) simp
    qed
  qed
next
  case (3 depth p token obj)
  show ?case
  proof (intro allI impI)
    fix p' v assume a: "parse_object_members depth p token obj = Some (p', v)"
      and tb: "tok_start token + tok_len token \<le> length (buffer p)"
    from parse_object_members_Some [OF a] obtain p1 t1 p2 mv obj' p3 p4 t4 where
      ts: "tok_type token = JSONK_TOKEN_STRING" and
      n1: "jsonk_next_token p = Inr (p1, t1)" and c1: "tok_type t1 = JSONK_TOKEN_COLON" and
      pv: "jsonk_parse_value depth p1 = Some (p2, mv)" and
      ad: "jsonk_object_add_member_tracked obj (token_bytes p token @ [NUL]) (tok_len t1) mv (Some p2)
          = Inr (obj', Some p3)" and
      n4: "jsonk_next_token p3 = Inr (p4, t4)" and
      c: "if tok_type t4 = JSONK_TOKEN_OBJECT_END then p' = p4 \<and> v = JSONK_VALUE_OBJECT obj'
         else tok_type t4 = JSONK_TOKEN_COMMA
              \<and> (\<exists>p5 t5. jsonk_next_token p4 = Inr (p5, t5)
                    \<and> parse_object_members depth p5 t5 obj' = Some (p', v))" by blast
    note f1 = jsonk_next_token_frame [OF n1] and f4 = jsonk_next_token_frame [OF n4]
    from parse_frame(1) [of depth p1] pv
    have fv: "buffer p2 = buffer p1 \<and> pos p1 < pos p2 \<and> pos p2 \<le> length (buffer p1)" by simp
    from add_member_tracked_frame [OF ad] have fa: "buffer p3 = buffer p2 \<and> pos p3 = pos p2" by simp
    have tb': "token_bytes (ext p t) token = token_bytes p token" by (rule token_bytes_ext [OF tb])
    from c1 have n1': "jsonk_next_token (ext p t) = Inr (ext p1 t, t1)"
      by (intro jsonk_next_token_ext [OF n1]) simp
    from next_token_pos_in [OF n4] fa fv have "pos p2 < length (buffer p1)" by simp
    with 3(1) [OF _ refl n1 refl _] ts c1 pv
    have pv': "jsonk_parse_value depth (ext p1 t) = Some (ext p2 t, mv)" by simp
    note ad' = add_member_tracked_ext [OF ad, of t]
    from c have "tok_type t4 \<noteq> JSONK_TOKEN_NUMBER" by (auto split: if_splits)
    then have n4': "jsonk_next_token (ext p3 t) = Inr (ext p4 t, t4)"
      by (intro jsonk_next_token_ext [OF n4]) simp
    show "parse_object_members depth (ext p t) token obj = Some (ext p' t, v)"
    proof (cases "tok_type t4 = JSONK_TOKEN_OBJECT_END")
      case True
      with c ts tb' n1' c1 pv' ad' n4' show ?thesis
        by (subst parse_object_members.simps) (simp add: Let_def)
    next
      case False
      with c obtain p5 t5 where cm: "tok_type t4 = JSONK_TOKEN_COMMA" and
        n5: "jsonk_next_token p4 = Inr (p5, t5)" and
        rec: "parse_object_members depth p5 t5 obj' = Some (p', v)" by auto
      note f5 = jsonk_next_token_frame [OF n5]
      from parse_object_members_Some [OF rec] have ts5: "tok_type t5 = JSONK_TOKEN_STRING" by simp
      then have n5': "jsonk_next_token (ext p4 t) = Inr (ext p5 t, t5)"
        by (intro jsonk_next_token_ext [OF n5]) simp
      from ts5 f5 have "tok_start t5 + tok_len t5 \<le> length (buffer p5)" by simp
      with 3(2) [OF _ refl n1 refl _ pv refl ad refl refl n4 refl False _ n5 refl] ts c1 cm rec
      have "parse_object_members depth (ext p5 t) t5 obj' = Some (ext p' t, v)" by simp
      with False cm ts tb' n1' c1 pv' ad' n4' n5' show ?thesis
        by (subst parse_object_members.simps) (simp add: Let_def)
    qed
  qed
next
  case (4 depth p)
  show ?case
  proof (intro allI impI)
    fix p' v assume a: "jsonk_parse_array depth p = Some (p', v)"
    from jsonk_parse_array_Some [OF a] obtain p1 t1 where
      n1: "jsonk_next_token p = Inr (p1, t1)" and s1: "tok_type t1 = JSONK_TOKEN_ARRAY_START" and
      rec: "parse_array_elements depth p1 [] = Some (p', v)" by blast
    from s1 have n1': "jsonk_next_token (ext p t) = Inr (ext p1 t, t1)"
      by (intro jsonk_next_token_ext [OF n1]) simp
    from 4 [OF n1 refl] s1 rec
    have "parse_array_elements depth (ext p1 t) [] = Some (ext p' t, v)" by simp
    with n1' s1 show "jsonk_parse_array depth (ext p t) = Some (ext p' t, v)"
      by (subst jsonk_parse_array.simps) simp
  qed
next
  case (5 depth p arr)
  show ?case
  proof (intro allI impI)
    fix p' v assume a: "parse_array_elements depth p arr = Some (p', v)"
    define q where "q = jsonk_skip_whitespace p"
    have fq: "buffer q = buffer p \<and> pos p \<le> pos q" by (simp add: q_def skip_whitespace_frame)
    show "parse_array_elements depth (ext p t) arr = Some (ext p' t, v)"
    proof (cases "pos q < length (buffer q) \<and> buffer q ! pos q = CHR '']''")
      case True
      with fq have e: "jsonk_skip_whitespace (ext p t) = ext q t"
        by (simp add: q_def skip_whitespace_ext)
      from True parse_array_elements_Some [OF a]
      have "p' = q\<lparr>pos := pos q + 1\<rparr>" "v = JSONK_VALUE_ARRAY arr" by (auto simp: q_def Let_def)
      with True e show ?thesis
        by (subst parse_array_elements.simps) (simp add: Let_def nth_append)
    next
      case False
      with parse_array_elements_Some [OF a] obtain p2 ev arr' p3 p4 t4 where
        pv: "jsonk_parse_value depth q = Some (p2, ev)" and
        ad: "jsonk_array_add_element_tracked arr ev (Some p2) = Inr (arr', Some p3)" and
        n4: "jsonk_next_token p3 = Inr (p4, t4)" and
        c: "if tok_type t4 = JSONK_TOKEN_ARRAY_END then p' = p4 \<and> v = JSONK_VALUE_ARRAY arr'
          else tok_type t4 = JSONK_TOKEN_COMMA
               \<and> parse_array_elements depth p4 arr' = Some (p', v)"
        by (auto simp: q_def Let_def)
      from parse_frame(1) [of depth q] pv
      have fv: "buffer p2 = buffer q \<and> pos q < pos p2 \<and> pos p2 \<le> length (buffer q)" by simp
      then have ql: "pos q < length (buffer q)" by simp
      with fq have e: "jsonk_skip_whitespace (ext p t) = ext q t"
        by (simp add: q_def skip_whitespace_ext)
      from add_element_tracked_frame [OF ad] have fa: "buffer p3 = buffer p2 \<and> pos p3 = pos p2"
        by simp
      from next_token_pos_in [OF n4] fa fv have "pos p2 < length (buffer q)" by simp
      with 5(1) [OF q_def False] pv
      have pv': "jsonk_parse_value depth (ext q t) = Some (ext p2 t, ev)" by simp
      note ad' = add_element_tracked_ext [OF ad, of t]
      from c have "tok_type t4 \<noteq> JSONK_TOKEN_NUMBER" by (auto split: if_splits)
      then have n4': "jsonk_next_token (ext p3 t) = Inr (ext p4 t, t4)"
        by (intro jsonk_next_token_ext [OF n4]) simp
      from False ql have nb: "buffer q ! pos q \<noteq> CHR '']''" by simp
      show ?thesis
      proof (cases "tok_type t4 = JSONK_TOKEN_ARRAY_END")
        case True
        with c e ql nb pv' ad' n4' show ?thesis
          by (subst parse_array_elements.simps) (simp add: Let_def nth_append)
      next
        case ne: False
        with c have cm: "tok_type t4 = JSONK_TOKEN_COMMA" and
          rec: "parse_array_elements depth p4 arr' = Some (p', v)" by auto
        from 5(2) [OF q_def False pv refl ad refl refl n4 refl ne] cm rec
        have "parse_array_elements depth (ext p4 t) arr' = Some (ext p' t, v)" by simp
        with ne cm e ql nb pv' ad' n4' show ?thesis
          by (subst parse_array_elements.simps) (simp add: Let_def nth_append)
      qed
    qed
  qed
qed

lemma parser_init_ext: "jsonk_parser_init (s @ t) = ext (jsonk_parser_init s) t"
  by (simp add: jsonk_parser_init_def ext_def)

text \<open>
  C9, as the code has it. \<^verbatim>\<open>jsonk_parse\<close> returns after the first value and never looks
  at the rest of the input: if the input \<open>s\<close> parses to the tree \<open>v\<close>, then \<open>s\<close> followed
  by any bytes \<open>t\<close> parses to \<open>v\<close> as well, provided that \<open>v\<close> is not a number, or \<open>t\<close>
  is empty, or \<open>t\<close> does not begin with a byte that continues a number (a digit,
  \<^verbatim>\<open>.\<close>, \<^verbatim>\<open>e\<close> or \<^verbatim>\<open>E\<close>).
\<close>

theorem parse_ignores_trailing_bytes:
  assumes "jsonk_parse s = Some v"
    and "(\<forall>i f n b. v \<noteq> JSONK_VALUE_NUMBER i f n b) \<or> t = [] \<or> \<not> continues_number (hd t)"
  shows "jsonk_parse (s @ t) = Some v"
proof -
  from assms(1) obtain p' where pv: "jsonk_parse_value 0 (jsonk_parser_init s) = Some (p', v)"
    and ne: "s \<noteq> []"
    by (auto simp: jsonk_parse_def split: if_splits)
  from assms(2)
  have "(\<forall>i f n b. v \<noteq> JSONK_VALUE_NUMBER i f n b)
          \<or> pos p' < length (buffer (jsonk_parser_init s)) \<or> t = [] \<or> \<not> continues_number (hd t)"
    by blast
  with parse_ext(1) [of 0 "jsonk_parser_init s" t] pv
  have "jsonk_parse_value 0 (ext (jsonk_parser_init s) t) = Some (ext p' t, v)" by blast
  with ne show ?thesis by (simp add: jsonk_parse_def parser_init_ext)
qed

theorem parse_ignores_trailing_bytes_witness:
  \<open>jsonk_parse ''{"a":1}garbage'' = Some (JSONK_VALUE_OBJECT [(''a'', JSONK_VALUE_NUMBER 1 0 False True)])\<close>
proof -
  have a: \<open>jsonk_parse ''{"a":1}'' = Some (JSONK_VALUE_OBJECT [(''a'', JSONK_VALUE_NUMBER 1 0 False True)])\<close>
    by (simp add: jsonk_eval)
  have b: "(\<forall>i f n b. JSONK_VALUE_OBJECT [(''a'', JSONK_VALUE_NUMBER 1 0 False True)] \<noteq> JSONK_VALUE_NUMBER i f n b)
             \<or> ''garbage'' = [] \<or> \<not> continues_number (hd ''garbage'')"
    by simp
  from parse_ignores_trailing_bytes [OF a b] show ?thesis by simp
qed

text \<open>
  Without that proviso the statement fails: \<^verbatim>\<open>0\<close> is parsed to the number 0, and
  \<^verbatim>\<open>0\<close> followed by the byte \<^verbatim>\<open>1\<close> is rejected with \<^verbatim>\<open>-EINVAL\<close> by
  \<^verbatim>\<open>jsonk_parse_number\<close> (a digit after a leading zero).
\<close>

theorem parse_leading_zero_then_digit_fails:
  "jsonk_parse ''0'' = Some (JSONK_VALUE_NUMBER 0 0 False True) \<and> jsonk_parse (''0'' @ ''1'') = None"
  by (simp add: jsonk_eval)

subsection \<open>The bytes written by the serializer\<close>







subsection \<open>Merging a patch that the target has absorbed\<close>






lemma members_depth_ge: "(k, v) \<in> set ms \<Longrightarrow> value_depth v \<le> members_depth ms"
  by (induction ms) auto









lemma size_members_rest:
  "size_list (size_prod (\<lambda>x. 0) size) rest < size_list (size_prod (\<lambda>x. 0) size) (m # rest)"
  by simp

lemma size_members_nested:
  "size_list (size_prod (\<lambda>x. 0) size) pm
     < size_list (size_prod (\<lambda>x. 0) size) ((k, JSONK_VALUE_OBJECT pm) # rest)"
  by simp




subsection \<open>A successful merge absorbs the patch\<close>







subsection \<open>The lexer on the compact rendering\<close>





lemma remaining_frame:
  "buffer p' = buffer p \<Longrightarrow> pos p' = pos p \<Longrightarrow> remaining p' = remaining p"
  by (simp add: remaining_def)















lemma dec_digits_ne [simp]: "dec_digits n \<noteq> []"
  by (subst dec_digits.simps) simp





























subsection \<open>Parsing the rendering of a regular tree\<close>

text \<open>
  When the parser succeeds on the rendering of a regular tree, it returns that tree and
  has read exactly the rendering.
\<close>

lemma not_continues_number [simp]:
  "\<not> continues_number (CHR '','')" "\<not> continues_number (CHR ''}'')"
  "\<not> continues_number (CHR '']'')"
  by (simp_all add: continues_number_def is_digit_def)











subsection \<open>Applying a patch twice\<close>






end
